theory Spec2Isabelle
  imports Main "HOL-Library.AList"
begin

section \<open>Numbers as text\<close>

text \<open>
  The editor builds the grid key with the template literal
  \<^verbatim>\<open>`${stepIndex}-${pitch}`\<close> and the default pattern name with
  \<^verbatim>\<open>`Pattern ${bar + 1}`\<close>. Bars, steps and pitches are integers; JavaScript prints an
  integer of magnitude below \<open>10^21\<close> in decimal, with a leading minus sign when negative.
\<close>

definition digit_char :: "nat \<Rightarrow> char" where
  "digit_char d = ''0123456789'' ! d"

fun show_nat :: "nat \<Rightarrow> string" where
  "show_nat n =
     (if n < 10 then [digit_char n] else show_nat (n div 10) @ [digit_char (n mod 10)])"

declare show_nat.simps [simp del]

definition show_int :: "int \<Rightarrow> string" where
  "show_int i = (if i < 0 then CHR ''-'' # show_nat (nat (- i)) else show_nat (nat i))"

definition note_key :: "int \<Rightarrow> int \<Rightarrow> string" where
  "note_key stepIndex pitch = show_int stepIndex @ ''-'' @ show_int pitch"

section \<open>The JavaScript Map\<close>

text \<open>
  A \<open>Map\<close> keeps its entries in insertion order: \<open>set\<close> on a key that is present
  replaces the value in place, \<open>set\<close> on a new key appends, \<open>delete\<close> removes the
  entry, \<open>values()\<close> lists the values in order.
\<close>

type_synonym ('k, 'v) js_map = "('k \<times> 'v) list"

definition map_has :: "('k, 'v) js_map \<Rightarrow> 'k \<Rightarrow> bool" where
  "map_has m k = (k \<in> set (map fst m))"

definition map_get :: "('k, 'v) js_map \<Rightarrow> 'k \<Rightarrow> 'v option" where
  "map_get m k = map_of m k"

definition map_set :: "('k, 'v) js_map \<Rightarrow> 'k \<Rightarrow> 'v \<Rightarrow> ('k, 'v) js_map" where
  "map_set m k v = AList.update k v m"

definition map_delete :: "('k, 'v) js_map \<Rightarrow> 'k \<Rightarrow> ('k, 'v) js_map" where
  "map_delete m k = AList.delete k m"

definition map_values :: "('k, 'v) js_map \<Rightarrow> 'v list" where
  "map_values m = map snd m"

section \<open>Data model (types/index.ts)\<close>

record pattern_create =
  name :: string
  length_bars :: int
  start_bar :: int

text \<open>
  \<open>Pattern\<close>: the fields of \<open>PatternCreate\<close> with \<open>id\<close> (here \<open>pat_id\<close>) and
  \<open>track_id\<close>.
\<close>

record pattern = pattern_create +
  pat_id :: string
  track_id :: string

text \<open>\<open>PatternUpdate\<close>: every field is optional.\<close>

record pattern_update =
  new_name :: "string option"
  new_length_bars :: "int option"
  new_start_bar :: "int option"

record note_create =
  pattern_id :: string
  step_index :: int
  pitch :: int
  velocity :: int

text \<open>
  \<open>Note\<close> (the word is an Isar keyword, hence \<open>midi_note\<close>): the fields of
  \<open>NoteCreate\<close> with \<open>id\<close>.
\<close>

record midi_note = note_create +
  note_id :: string

datatype error = ValidationError | NotFoundError | OverlapError string | TypeError

section \<open>The editor's state (ManualCreator)\<close>

text \<open>
  The component state the modelled handlers read and write: \<open>projectDetail\<close> (its
  \<open>patterns\<close> array; \<open>None\<close> is \<open>null\<close>), \<open>selectedPattern\<close> and \<open>noteGrid\<close>.
\<close>

record client =
  projectDetail :: "pattern list option"
  selectedPattern :: "pattern option"
  noteGrid :: "(string, midi_note) js_map"

definition NUM_STEPS :: int where
  "NUM_STEPS = 16"

definition PITCH_NOTES :: "(string \<times> int) list" where
  "PITCH_NOTES =
     [(''C'', 60), (''D'', 62), (''E'', 64), (''F'', 65), (''G'', 67), (''A'', 69), (''B'', 71)]"

text \<open>
  \<open>toggleNote\<close>: copies the grid, deletes the key when present, otherwise stores a
  temporary note. The non-null assertion \<open>selectedPattern!.id\<close> throws a TypeError when no
  pattern is selected; the exception leaves the state as it was.
\<close>

definition toggleNote :: "client \<Rightarrow> int \<Rightarrow> int \<Rightarrow> error + client" where
  "toggleNote c stepIndex pitch' =
     (let key = note_key stepIndex pitch';
          newGrid = noteGrid c
      in if map_has newGrid key then Inr (c\<lparr>noteGrid := map_delete newGrid key\<rparr>)
         else (case selectedPattern c of
                 None \<Rightarrow> Inl TypeError
               | Some sp \<Rightarrow>
                   Inr (c\<lparr>noteGrid := map_set newGrid key
                          \<lparr>pattern_id = pat_id sp, step_index = stepIndex, pitch = pitch',
                           velocity = 100, note_id = ''temp''\<rparr>\<rparr>)))"

text \<open>\<open>getPatternAtCell\<close>: the first pattern of the track whose bar range holds the bar.\<close>

definition getPatternAtCell :: "client \<Rightarrow> string \<Rightarrow> int \<Rightarrow> pattern option" where
  "getPatternAtCell c trackId bar =
     (case projectDetail c of
        None \<Rightarrow> None
      | Some ps \<Rightarrow>
          find (\<lambda>p. track_id p = trackId \<and> bar \<ge> start_bar p
                      \<and> bar < start_bar p + length_bars p) ps)"

text \<open>
  \<open>noteMap\<close>: the loop of \<open>loadPatternNotes\<close> that files every fetched note under its
  key, in list order, starting from an empty Map.
\<close>

definition noteMap :: "midi_note list \<Rightarrow> (string, midi_note) js_map" where
  "noteMap notes = foldl (\<lambda>m n. map_set m (note_key (step_index n) (pitch n)) n) [] notes"

section \<open>Timeline Store (the backend behind apiClient.manual)\<close>

text \<open>
  The sources hold the client only; the service behind \<open>/api/manual\<close> is absent. The
  definitions of this section follow the specification's sections 3, 4.1 and 7. The store
  keeps the tracks, the patterns and the notes of one project; the project level
  (\<open>createProject\<close>, \<open>deleteProject\<close>) and the display and mixer fields of a track
  (\<open>updateTrack\<close>) touch no pattern range and no note, and are left out. Every operation
  returns its result together with the store it leaves behind; a failed operation leaves the
  store it found.
\<close>

text \<open>
  Modelled from the spec: the state of the Timeline Store (section 4.1), the service that is
  not in the sources: the track identities, the Patterns, the Notes, and the counter from
  which fresh identities are generated.
\<close>

record store =
  stored_tracks :: "string list"
  stored_patterns :: "pattern list"
  stored_notes :: "midi_note list"
  next_id :: nat

text \<open>Modelled from the spec: the steps-per-pattern resolution of section 3 (16).\<close>

definition STEPS_PER_PATTERN :: int where
  "STEPS_PER_PATTERN = 16"

text \<open>Modelled from the spec: the half-open bar range a Pattern occupies (section 3).\<close>

definition bar_range :: "'a pattern_create_scheme \<Rightarrow> int set" where
  "bar_range p = {start_bar p ..< start_bar p + length_bars p}"

text \<open>
  Modelled from the spec: \<open>addTrack\<close> of section 4.1, reduced to the identity it
  generates.
\<close>

definition addTrack :: "store \<Rightarrow> (error + string) \<times> store" where
  "addTrack st =
     (let t = show_nat (next_id st)
      in (Inr t, st\<lparr>stored_tracks := stored_tracks st @ [t], next_id := Suc (next_id st)\<rparr>))"

text \<open>
  Modelled from the spec: \<open>addPattern\<close> of section 4.1. It fails with NotFoundError for
  an unknown track (section 7) and with OverlapError, naming the conflicting Pattern, when
  the new range intersects the range of a Pattern of the same track.
\<close>

definition addPattern :: "store \<Rightarrow> string \<Rightarrow> pattern_create \<Rightarrow> (error + pattern) \<times> store" where
  "addPattern st trackId pc =
     (if trackId \<notin> set (stored_tracks st) then (Inl NotFoundError, st)
      else (case find (\<lambda>q. track_id q = trackId \<and> bar_range pc \<inter> bar_range q \<noteq> {})
                   (stored_patterns st) of
              Some q \<Rightarrow> (Inl (OverlapError (pat_id q)), st)
            | None \<Rightarrow>
                (let p = \<lparr>name = name pc, length_bars = length_bars pc,
                          start_bar = start_bar pc, pat_id = show_nat (next_id st),
                          track_id = trackId\<rparr>
                 in (Inr p, st\<lparr>stored_patterns := stored_patterns st @ [p],
                               next_id := Suc (next_id st)\<rparr>))))"

text \<open>
  Modelled from the spec: the patch semantics of the update operations (section 4.1): only
  the supplied fields change, the others keep their value.
\<close>

definition patched :: "pattern \<Rightarrow> pattern_update \<Rightarrow> pattern" where
  "patched p u =
     p\<lparr>name := (case new_name u of None \<Rightarrow> name p | Some n \<Rightarrow> n),
       length_bars := (case new_length_bars u of None \<Rightarrow> length_bars p | Some l \<Rightarrow> l),
       start_bar := (case new_start_bar u of None \<Rightarrow> start_bar p | Some b \<Rightarrow> b)\<rparr>"

text \<open>
  Modelled from the spec: \<open>updatePattern\<close> of section 4.1. It fails with NotFoundError
  for an unknown Pattern (section 7); overlap against the other Patterns of the track is
  validated again when the start bar or the length changes.
\<close>

definition updatePattern :: "store \<Rightarrow> string \<Rightarrow> pattern_update \<Rightarrow> (error + pattern) \<times> store" where
  "updatePattern st patternId u =
     (case find (\<lambda>p. pat_id p = patternId) (stored_patterns st) of
        None \<Rightarrow> (Inl NotFoundError, st)
      | Some p \<Rightarrow>
          (let p' = patched p u;
               st' = st\<lparr>stored_patterns :=
                          map (\<lambda>q. if pat_id q = patternId then p' else q)
                            (stored_patterns st)\<rparr>
           in if start_bar p' = start_bar p \<and> length_bars p' = length_bars p
              then (Inr p', st')
              else (case find (\<lambda>q. pat_id q \<noteq> patternId \<and> track_id q = track_id p
                                     \<and> bar_range p' \<inter> bar_range q \<noteq> {})
                           (stored_patterns st) of
                      Some q \<Rightarrow> (Inl (OverlapError (pat_id q)), st)
                    | None \<Rightarrow> (Inr p', st'))))"

text \<open>Modelled from the spec: \<open>deletePattern\<close> of section 4.1, cascading to the Notes.\<close>

definition deletePattern :: "store \<Rightarrow> string \<Rightarrow> (error + unit) \<times> store" where
  "deletePattern st patternId =
     (if patternId \<notin> set (map pat_id (stored_patterns st)) then (Inl NotFoundError, st)
      else (Inr (), st\<lparr>stored_patterns :=
                          filter (\<lambda>p. pat_id p \<noteq> patternId) (stored_patterns st),
                        stored_notes :=
                          filter (\<lambda>n. pattern_id n \<noteq> patternId) (stored_notes st)\<rparr>))"

text \<open>
  Modelled from the spec: \<open>deleteTrack\<close> of section 4.1, cascading to the Patterns of
  the track and to their Notes.
\<close>

definition deleteTrack :: "store \<Rightarrow> string \<Rightarrow> (error + unit) \<times> store" where
  "deleteTrack st trackId =
     (if trackId \<notin> set (stored_tracks st) then (Inl NotFoundError, st)
      else (let gone = map pat_id (filter (\<lambda>p. track_id p = trackId) (stored_patterns st))
            in (Inr (), st\<lparr>stored_tracks := filter (\<lambda>t. t \<noteq> trackId) (stored_tracks st),
                            stored_patterns :=
                              filter (\<lambda>p. track_id p \<noteq> trackId) (stored_patterns st),
                            stored_notes :=
                              filter (\<lambda>n. pattern_id n \<notin> set gone) (stored_notes st)\<rparr>)))"

text \<open>Modelled from the spec: \<open>getNotes\<close> of section 4.1, the Notes a Pattern owns.\<close>

definition getNotes :: "store \<Rightarrow> string \<Rightarrow> error + midi_note list" where
  "getNotes st patternId =
     (if patternId \<notin> set (map pat_id (stored_patterns st)) then Inl NotFoundError
      else Inr (filter (\<lambda>n. pattern_id n = patternId) (stored_notes st)))"

text \<open>
  Modelled from the spec: the validation of an entry given to \<open>replaceNotes\<close>
  (section 4.1): step index in \<open>[0, STEPS_PER_PATTERN)\<close>, velocity in \<open>[0, 127]\<close>.
\<close>

definition valid_entry :: "'a note_create_scheme \<Rightarrow> bool" where
  "valid_entry n =
     (0 \<le> step_index n \<and> step_index n < STEPS_PER_PATTERN \<and> 0 \<le> velocity n \<and> velocity n \<le> 127)"

text \<open>
  Modelled from the spec: \<open>replaceNotes\<close> of section 4.1. Validation comes before any
  mutation (section 7); then every Note the Pattern owns is deleted and the entries are
  inserted under fresh identities, as one step.
\<close>

definition replaceNotes ::
  "store \<Rightarrow> string \<Rightarrow> note_create list \<Rightarrow> (error + midi_note list) \<times> store" where
  "replaceNotes st patternId noteList =
     (if \<exists>n \<in> set noteList. \<not> valid_entry n then (Inl ValidationError, st)
      else if patternId \<notin> set (map pat_id (stored_patterns st)) then (Inl NotFoundError, st)
      else (let kept = filter (\<lambda>n. pattern_id n \<noteq> patternId) (stored_notes st);
                created =
                  map (\<lambda>(i, n). \<lparr>pattern_id = patternId, step_index = step_index n,
                                  pitch = pitch n, velocity = velocity n,
                                  note_id = show_nat (next_id st + i)\<rparr>)
                    (enumerate 0 noteList)
            in (Inr created, st\<lparr>stored_notes := kept @ created,
                                 next_id := next_id st + length noteList\<rparr>)))"

text \<open>
  Modelled from the spec: the mutating operations of section 4.1 on tracks, patterns and
  notes, as requests, and the store each leaves behind.
\<close>

datatype store_op =
    AddTrack
  | DeleteTrack string
  | AddPattern string pattern_create
  | UpdatePattern string pattern_update
  | DeletePattern string
  | ReplaceNotes string "note_create list"

fun apply_store_op :: "store \<Rightarrow> store_op \<Rightarrow> store" where
  "apply_store_op st AddTrack = snd (addTrack st)"
| "apply_store_op st (DeleteTrack t) = snd (deleteTrack st t)"
| "apply_store_op st (AddPattern t pc) = snd (addPattern st t pc)"
| "apply_store_op st (UpdatePattern i u) = snd (updatePattern st i u)"
| "apply_store_op st (DeletePattern i) = snd (deletePattern st i)"
| "apply_store_op st (ReplaceNotes i ns) = snd (replaceNotes st i ns)"

text \<open>Modelled from the spec: the store before any request.\<close>

definition empty_store :: store where
  "empty_store = \<lparr>stored_tracks = [], stored_patterns = [], stored_notes = [], next_id = 0\<rparr>"

section \<open>The editor's handlers that call the backend\<close>

text \<open>
  \<open>apiClient.manual\<close> (lib/apiClient): each method is one request to the service, and
  \<open>apiFetch\<close> throws when the response is not OK. \<open>createPattern\<close> posts to
  \<open>/manual/tracks/{id}/patterns\<close>, \<open>getNotes\<close> reads \<open>/manual/patterns/{id}/notes\<close>,
  \<open>createNotesBulk\<close> posts to \<open>/manual/patterns/{id}/notes/bulk\<close>; the client calls
  the last two \<open>getPatternNotes\<close> and \<open>replacePatternNotes\<close>.
\<close>

definition createPattern :: "store \<Rightarrow> string \<Rightarrow> pattern_create \<Rightarrow> (error + pattern) \<times> store" where
  "createPattern st trackId pc = addPattern st trackId pc"

definition getPatternNotes :: "store \<Rightarrow> string \<Rightarrow> error + midi_note list" where
  "getPatternNotes st patternId = getNotes st patternId"

definition createNotesBulk ::
  "store \<Rightarrow> string \<Rightarrow> note_create list \<Rightarrow> (error + midi_note list) \<times> store" where
  "createNotesBulk st patternId notes = replaceNotes st patternId notes"

definition replacePatternNotes ::
  "store \<Rightarrow> string \<Rightarrow> note_create list \<Rightarrow> (error + midi_note list) \<times> store" where
  "replacePatternNotes = createNotesBulk"

text \<open>
  The service and one editor. The handlers are asynchronous; each is taken as one step, its
  requests answered in the order it awaits them.
\<close>

record world =
  backend :: store
  ui :: client

text \<open>\<open>loadProjectDetail\<close>: refreshes the editor's copy of the project's patterns.\<close>

definition loadProjectDetail :: "world \<Rightarrow> world" where
  "loadProjectDetail w = w\<lparr>ui := (ui w)\<lparr>projectDetail := Some (stored_patterns (backend w))\<rparr>\<rparr>"

text \<open>
  \<open>loadPatternNotes\<close>: fetches the notes of the pattern and rebuilds the grid; a failed
  fetch is logged and the grid stays.
\<close>

definition loadPatternNotes :: "world \<Rightarrow> string \<Rightarrow> world" where
  "loadPatternNotes w patternId =
     (case getPatternNotes (backend w) patternId of
        Inl e \<Rightarrow> w
      | Inr notes \<Rightarrow> w\<lparr>ui := (ui w)\<lparr>noteGrid := noteMap notes\<rparr>\<rparr>)"

text \<open>
  \<open>handleCellClick\<close>: looks for a pattern of the track that starts at the clicked bar;
  selects it, or asks the service for a new two-bar pattern there. Of the \<open>track\<close>
  argument only \<open>track.id\<close> is read.
\<close>

definition handleCellClick :: "world \<Rightarrow> string \<Rightarrow> int \<Rightarrow> world" where
  "handleCellClick w trackId bar =
     (case projectDetail (ui w) of
        None \<Rightarrow> w
      | Some ps \<Rightarrow>
          (case find (\<lambda>p. track_id p = trackId \<and> start_bar p = bar) ps of
             Some existingPattern \<Rightarrow> w\<lparr>ui := (ui w)\<lparr>selectedPattern := Some existingPattern\<rparr>\<rparr>
           | None \<Rightarrow>
               (case createPattern (backend w) trackId
                       \<lparr>name = ''Pattern '' @ show_int (bar + 1), length_bars = 2,
                        start_bar = bar\<rparr> of
                  (Inl e, st') \<Rightarrow> w\<lparr>backend := st'\<rparr>
                | (Inr newPattern, st') \<Rightarrow>
                    (let w' = loadProjectDetail (w\<lparr>backend := st'\<rparr>)
                     in w'\<lparr>ui := (ui w')\<lparr>selectedPattern := Some newPattern\<rparr>\<rparr>))))"

text \<open>
  \<open>handleSaveNotes\<close>: sends the values of the grid, in the Map's order, as the full note
  list of the selected pattern, then reloads the grid; a failed request is logged and the
  grid stays.
\<close>

definition handleSaveNotes :: "world \<Rightarrow> world" where
  "handleSaveNotes w =
     (case selectedPattern (ui w) of
        None \<Rightarrow> w
      | Some sp \<Rightarrow>
          (let notes = map (\<lambda>n. \<lparr>pattern_id = pat_id sp, step_index = step_index n,
                                  pitch = pitch n, velocity = velocity n\<rparr>)
                         (map_values (noteGrid (ui w)))
           in (case replacePatternNotes (backend w) (pat_id sp) notes of
                 (Inl e, st') \<Rightarrow> w\<lparr>backend := st'\<rparr>
               | (Inr saved, st') \<Rightarrow> loadPatternNotes (w\<lparr>backend := st'\<rparr>) (pat_id sp))))"

section \<open>Sessions\<close>

text \<open>
  What can happen to the store and one editor: a request of any client to the store, and
  the editor's own events. The note grid renders the cells of steps \<open>0 .. NUM_STEPS - 1\<close>
  and of the pitches of \<open>PITCH_NOTES\<close>, so \<open>toggleNote\<close> is called with these only; the
  effect on \<open>selectedPattern\<close> reloads the grid for the selected pattern.
\<close>

datatype event =
    Request store_op
  | LoadProjectDetail
  | CellClick string int
  | LoadSelectedNotes
  | ToggleNote int int
  | SaveNotes

fun apply_event :: "world \<Rightarrow> event \<Rightarrow> world" where
  "apply_event w (Request op) = w\<lparr>backend := apply_store_op (backend w) op\<rparr>"
| "apply_event w LoadProjectDetail = loadProjectDetail w"
| "apply_event w (CellClick trackId bar) = handleCellClick w trackId bar"
| "apply_event w LoadSelectedNotes =
     (case selectedPattern (ui w) of
        None \<Rightarrow> w
      | Some sp \<Rightarrow> loadPatternNotes w (pat_id sp))"
| "apply_event w (ToggleNote stepIndex pitch') =
     (if 0 \<le> stepIndex \<and> stepIndex < NUM_STEPS \<and> pitch' \<in> set (map snd PITCH_NOTES)
      then (case toggleNote (ui w) stepIndex pitch' of
              Inl e \<Rightarrow> w
            | Inr c \<Rightarrow> w\<lparr>ui := c\<rparr>)
      else w)"
| "apply_event w SaveNotes = handleSaveNotes w"

definition initial_world :: world where
  "initial_world =
     \<lparr>backend = empty_store,
      ui = \<lparr>projectDetail = None, selectedPattern = None, noteGrid = []\<rparr>\<rparr>"

definition run :: "event list \<Rightarrow> world" where
  "run evs = foldl apply_event initial_world evs"

section \<open>Invariants\<close>

text \<open>
  No two distinct Patterns of one track have intersecting bar ranges (specification,
  sections 3 and 8).
\<close>

definition non_overlapping :: "pattern list \<Rightarrow> bool" where
  "non_overlapping ps =
     (\<forall>p1 \<in> set ps. \<forall>p2 \<in> set ps.
        p1 \<noteq> p2 \<and> track_id p1 = track_id p2 \<longrightarrow> bar_range p1 \<inter> bar_range p2 = {})"

text \<open>
  Pattern identities are distinct and were all issued by the store's counter; stored notes
  passed the validation of \<open>replaceNotes\<close>.
\<close>

definition ids_issued :: "store \<Rightarrow> bool" where
  "ids_issued st = (\<forall>p \<in> set (stored_patterns st). \<exists>k < next_id st. pat_id p = show_nat k)"

definition store_inv :: "store \<Rightarrow> bool" where
  "store_inv st =
     (distinct (map pat_id (stored_patterns st)) \<and> ids_issued st
      \<and> non_overlapping (stored_patterns st))"

definition notes_valid :: "store \<Rightarrow> bool" where
  "notes_valid st = (\<forall>n \<in> set (stored_notes st). valid_entry n)"

text \<open>The patterns of a track that cover a bar.\<close>

definition covering :: "pattern list \<Rightarrow> string \<Rightarrow> int \<Rightarrow> pattern list" where
  "covering ps trackId bar = filter (\<lambda>p. track_id p = trackId \<and> bar \<in> bar_range p) ps"

text \<open>The key under which the editor files a note.\<close>

definition key_of :: "midi_note \<Rightarrow> string" where
  "key_of n = note_key (step_index n) (pitch n)"

text \<open>
  A working grid files every note under the key of its own step and pitch, once; its
  entries are within the ranges the store accepts.
\<close>

definition grid_keyed :: "(string, midi_note) js_map \<Rightarrow> bool" where
  "grid_keyed g =
     (distinct (map fst g) \<and> (\<forall>(k, n) \<in> set g. k = note_key (step_index n) (pitch n)))"

definition grid_valid :: "(string, midi_note) js_map \<Rightarrow> bool" where
  "grid_valid g = (\<forall>(k, n) \<in> set g. valid_entry n)"

definition triple :: "'a note_create_scheme \<Rightarrow> int \<times> int \<times> int" where
  "triple n = (step_index n, pitch n, velocity n)"

definition grid_triples :: "(string, midi_note) js_map \<Rightarrow> (int \<times> int \<times> int) set" where
  "grid_triples g = triple ` set (map_values g)"

text \<open>What every session keeps true of the store and of the editor's grid.\<close>

definition world_inv :: "world \<Rightarrow> bool" where
  "world_inv w =
     (store_inv (backend w) \<and> notes_valid (backend w)
      \<and> grid_keyed (noteGrid (ui w)) \<and> grid_valid (noteGrid (ui w)))"

section \<open>Example states\<close>

text \<open>
  The scenario of the specification's section 8: one track, and on it the two-bar pattern
  "Pattern 3" at bar 2; a note as the service returns it.
\<close>

definition demo_pattern :: pattern where
  "demo_pattern =
     \<lparr>name = ''Pattern 3'', length_bars = 2, start_bar = 2, pat_id = ''1'', track_id = ''0''\<rparr>"

definition demo_note :: midi_note where
  "demo_note =
     \<lparr>pattern_id = ''1'', step_index = 4, pitch = 62, velocity = 90, note_id = ''7''\<rparr>"

definition demo_notes :: "midi_note list" where
  "demo_notes =
     [demo_note, demo_note\<lparr>pitch := 60, note_id := ''8''\<rparr>,
      demo_note\<lparr>velocity := 50, note_id := ''9''\<rparr>]"

definition demo_client :: client where
  "demo_client =
     \<lparr>projectDetail = Some [demo_pattern], selectedPattern = Some demo_pattern, noteGrid = []\<rparr>"

definition demo_store :: store where
  "demo_store =
     \<lparr>stored_tracks = [''0''], stored_patterns = [demo_pattern], stored_notes = [demo_note],
      next_id = 8\<rparr>"

definition demo_world :: world where
  "demo_world = \<lparr>backend = demo_store, ui = demo_client\<rparr>"

text \<open>
  Sessions of the editor: the scenario of section 8 up to the first click; the same store
  after the page was opened again (nothing selected); a project with one empty track; a
  track whose only pattern occupies bars [3, 5); and an editing session with two toggled
  cells.
\<close>

definition demo_session :: "event list" where
  "demo_session = [Request AddTrack, LoadProjectDetail, CellClick ''0'' 2]"

definition reopened_session :: "event list" where
  "reopened_session =
     [Request AddTrack,
      Request (AddPattern ''0'' \<lparr>name = ''Pattern 3'', length_bars = 2, start_bar = 2\<rparr>),
      LoadProjectDetail]"



definition editing_session :: "event list" where
  "editing_session = demo_session @ [LoadSelectedNotes, ToggleNote 0 60, ToggleNote 4 62]"

definition temp_note :: "int \<Rightarrow> int \<Rightarrow> midi_note" where
  "temp_note s p =
     \<lparr>pattern_id = ''1'', step_index = s, pitch = p, velocity = 100, note_id = ''temp''\<rparr>"

section \<open>The grid key is unambiguous\<close>

lemmas show_simps = note_key_def show_int_def show_nat.simps digit_char_def

lemma digit_char_inj: "a < 10 \<Longrightarrow> b < 10 \<Longrightarrow> digit_char a = digit_char b \<Longrightarrow> a = b"
proof -
  assume a: "a < 10" and b: "b < 10" and e: "digit_char a = digit_char b"
  have d: "distinct ''0123456789''" by simp
  have "length ''0123456789'' = 10" by simp
  with a b e d show "a = b"
    unfolding digit_char_def by (metis nth_eq_iff_index_eq)
qed

lemma digit_char_not_minus: "d < 10 \<Longrightarrow> digit_char d \<noteq> CHR ''-''"
proof -
  assume "d < 10"
  then have "d \<in> {0,1,2,3,4,5,6,7,8,9}" by auto
  then show ?thesis unfolding digit_char_def by auto
qed

lemma show_nat_nonempty: "show_nat n \<noteq> []"
  by (subst show_nat.simps) simp

lemma show_nat_no_minus: "CHR ''-'' \<notin> set (show_nat n)"
proof (induction n rule: show_nat.induct)
  case (1 n)
  show ?case
  proof (cases "n < 10")
    case True
    then show ?thesis using digit_char_not_minus[of n] by (subst show_nat.simps) auto
  next
    case False
    then show ?thesis using 1 digit_char_not_minus[of "n mod 10"]
      by (subst show_nat.simps) auto
  qed
qed

lemma show_nat_length_ge2: "\<not> n < 10 \<Longrightarrow> length (show_nat n) \<ge> 2"
  using show_nat_nonempty[of "n div 10"]
  by (subst show_nat.simps) (cases "show_nat (n div 10)"; simp)

lemma show_nat_inj: "show_nat a = show_nat b \<Longrightarrow> a = b"
proof (induction a arbitrary: b rule: show_nat.induct)
  case (1 a)
  show ?case
  proof (cases "a < 10")
    case True
    note a = this
    show ?thesis
    proof (cases "b < 10")
      case True
      with a 1(2) show ?thesis
        by (simp add: show_nat.simps[of a] show_nat.simps[of b] digit_char_inj)
    next
      case False
      have "length (show_nat a) = 1" using a by (simp add: show_nat.simps[of a])
      with show_nat_length_ge2[OF False] 1(2) show ?thesis by simp
    qed
  next
    case False
    note a = this
    show ?thesis
    proof (cases "b < 10")
      case True
      have "length (show_nat b) = 1" using True by (simp add: show_nat.simps[of b])
      with show_nat_length_ge2[OF a] 1(2) show ?thesis by simp
    next
      case False
      from a False 1(2) have
        "show_nat (a div 10) @ [digit_char (a mod 10)] = show_nat (b div 10) @ [digit_char (b mod 10)]"
        by (simp add: show_nat.simps[of a] show_nat.simps[of b])
      then have e1: "show_nat (a div 10) = show_nat (b div 10)"
        and e2: "digit_char (a mod 10) = digit_char (b mod 10)" by simp_all
      from 1(1)[OF a e1] have "a div 10 = b div 10" .
      moreover from e2 have "a mod 10 = b mod 10" by (intro digit_char_inj) simp_all
      ultimately show ?thesis by (metis div_mult_mod_eq)
    qed
  qed
qed

lemma show_int_inj: "show_int a = show_int b \<Longrightarrow> a = b"
proof -
  assume e: "show_int a = show_int b"
  have hd_nat: "\<And>n. hd (show_nat n) \<noteq> CHR ''-''"
    using show_nat_no_minus show_nat_nonempty by (metis hd_in_set)
  show ?thesis
  proof (cases "a < 0")
    case True
    note a = this
    show ?thesis
    proof (cases "b < 0")
      case True
      with a e have "show_nat (nat (- a)) = show_nat (nat (- b))" by (simp add: show_int_def)
      then have "nat (- a) = nat (- b)" by (rule show_nat_inj)
      with a True show ?thesis by simp
    next
      case False
      with a e have "show_nat (nat b) = CHR ''-'' # show_nat (nat (- a))"
        by (simp add: show_int_def)
      then have "hd (show_nat (nat b)) = CHR ''-''" by simp
      with hd_nat[of "nat b"] show ?thesis by simp
    qed
  next
    case False
    note a = this
    show ?thesis
    proof (cases "b < 0")
      case True
      with a e have "hd (show_nat (nat a)) = CHR ''-''" by (simp add: show_int_def)
      with hd_nat[of "nat a"] show ?thesis by simp
    next
      case False
      with a e have "show_nat (nat a) = show_nat (nat b)" by (simp add: show_int_def)
      then have "nat a = nat b" by (rule show_nat_inj)
      with a False show ?thesis by simp
    qed
  qed
qed

text \<open>Splitting at the first minus sign that follows a digit.\<close>

lemma split_at_sep:
  "CHR ''-'' \<notin> set xs \<Longrightarrow> CHR ''-'' \<notin> set ys \<Longrightarrow>
   xs @ CHR ''-'' # r = ys @ CHR ''-'' # r' \<Longrightarrow> xs = ys \<and> r = r'"
proof (induction xs arbitrary: ys)
  case Nil
  then show ?case by (cases ys) auto
next
  case (Cons x xs)
  then show ?case by (cases ys) auto
qed

lemma note_key_inj: "note_key s p = note_key s' p' \<Longrightarrow> s = s' \<and> p = p'"
proof -
  assume e: "note_key s p = note_key s' p'"
  define body where "body i = show_nat (nat \<bar>i\<bar>)" for i :: int
  have si: "\<And>i. show_int i = (if i < 0 then CHR ''-'' # body i else body i)"
    by (auto simp: show_int_def body_def abs_if)
  have nm: "\<And>i. CHR ''-'' \<notin> set (body i)" by (simp add: body_def show_nat_no_minus)
  have ne: "\<And>i. body i \<noteq> []" by (simp add: body_def show_nat_nonempty)
  have hd: "\<And>i. hd (body i) \<noteq> CHR ''-''" using nm ne by (metis hd_in_set)
  have sign: "(s < 0) = (s' < 0)"
    using e hd[of s] hd[of s'] ne[of s] ne[of s']
    by (cases "body s"; cases "body s'"; auto simp: note_key_def si split: if_splits)
  then have "body s @ CHR ''-'' # show_int p = body s' @ CHR ''-'' # show_int p'"
    using e by (auto simp: note_key_def si split: if_splits)
  from split_at_sep[OF nm nm this] have b: "body s = body s'" and p: "show_int p = show_int p'"
    by simp_all
  from b sign have "show_int s = show_int s'" by (simp add: si)
  with p show ?thesis by (auto dest: show_int_inj)
qed

section \<open>Map lemmas\<close>

lemma map_delete_absent: "\<not> map_has m k \<Longrightarrow> map_delete m k = m"
  by (induction m) (auto simp: map_has_def map_delete_def)

lemma map_delete_set_absent: "\<not> map_has m k \<Longrightarrow> map_delete (map_set m k v) k = m"
  by (induction m) (auto simp: map_has_def map_delete_def map_set_def)

lemma map_get_set: "map_get (map_set m k v) k' = (if k' = k then Some v else map_get m k')"
  by (simp add: map_get_def map_set_def update_conv')

lemma map_get_delete: "map_get (map_delete m k) k' = (if k' = k then None else map_get m k')"
  by (simp add: map_get_def map_delete_def delete_conv')

lemma map_has_get: "map_has m k = (map_get m k \<noteq> None)"
  by (simp add: map_has_def map_get_def map_of_eq_None_iff)

lemma map_has_set: "map_has (map_set m k v) k' = (k' = k \<or> map_has m k')"
  by (simp add: map_has_get map_get_set)

lemma in_set_map_set: "e \<in> set (map_set m k v) \<Longrightarrow> e = (k, v) \<or> e \<in> set m"
  by (induction m) (auto simp: map_set_def split: if_splits)

lemma set_map_delete_subset: "set (map_delete m k) \<subseteq> set m"
  by (induction m) (auto simp: map_delete_def)

lemma map_set_absent: "\<not> map_has m k \<Longrightarrow> map_set m k v = m @ [(k, v)]"
  by (induction m) (auto simp: map_has_def map_set_def)

lemma map_get_Nil: "map_get [] k = None"
  by (simp add: map_get_def)

lemma filter_key_le1: "distinct (map fst g) \<Longrightarrow> length (filter (\<lambda>e. fst e = k) g) \<le> 1"
proof (induction g)
  case Nil
  then show ?case by simp
next
  case (Cons e g)
  show ?case
  proof (cases "fst e = k")
    case True
    have "fst x \<noteq> k" if "x \<in> set g" for x
      using that Cons.prems True by (metis distinct.simps(2) image_eqI list.simps(9) set_map)
    then have "filter (\<lambda>e. fst e = k) g = []"
      by (simp add: filter_empty_conv)
    with True show ?thesis by simp
  next
    case False
    with Cons show ?thesis by simp
  qed
qed

section \<open>Building the grid from a note list\<close>

lemma noteMap_foldl: "noteMap ns = foldl (\<lambda>m n. map_set m (key_of n) n) [] ns"
  by (simp add: noteMap_def key_of_def)

lemma fold_distinct:
  "distinct (map fst m) \<Longrightarrow> distinct (map fst (foldl (\<lambda>m n. map_set m (key_of n) n) m ns))"
  by (induction ns arbitrary: m) (simp_all add: map_set_def distinct_update)

lemma fold_keyed:
  "\<forall>(k, n) \<in> set m. k = key_of n \<and> (n \<in> set ns \<or> n \<in> A) \<Longrightarrow>
   \<forall>(k, n) \<in> set (foldl (\<lambda>m n. map_set m (key_of n) n) m ns). k = key_of n \<and> (n \<in> set ns \<or> n \<in> A)"
proof (induction ns arbitrary: m A)
  case Nil
  then show ?case by simp
next
  case (Cons x xs)
  have "\<forall>(k, n) \<in> set (map_set m (key_of x) x). k = key_of n \<and> (n \<in> set xs \<or> n \<in> insert x A)"
    using Cons.prems by (auto dest!: in_set_map_set)
  from Cons.IH[OF this] show ?case by auto
qed

lemma find_snoc:
  "find P (xs @ [x]) = (case find P xs of Some y \<Rightarrow> Some y | None \<Rightarrow> if P x then Some x else None)"
  by (induction xs) auto

lemma fold_get:
  "map_get (foldl (\<lambda>m n. map_set m (key_of n) n) m ns) k =
     (case find (\<lambda>n. key_of n = k) (rev ns) of Some n \<Rightarrow> Some n | None \<Rightarrow> map_get m k)"
proof (induction ns arbitrary: m)
  case Nil
  then show ?case by simp
next
  case (Cons x xs)
  show ?case
    by (simp add: Cons.IH find_snoc map_get_set split: option.splits)
qed

lemma find_key_of:
  "find (\<lambda>n. key_of n = note_key s p) xs = find (\<lambda>n. step_index n = s \<and> pitch n = p) xs"
proof -
  have "(\<lambda>n. key_of n = note_key s p) = (\<lambda>n::midi_note. step_index n = s \<and> pitch n = p)"
    by (auto simp: key_of_def dest: note_key_inj)
  then show ?thesis by simp
qed

lemma fold_append:
  "distinct (map key_of ns) \<Longrightarrow> \<forall>n \<in> set ns. \<not> map_has m (key_of n) \<Longrightarrow>
   foldl (\<lambda>m n. map_set m (key_of n) n) m ns = m @ map (\<lambda>n. (key_of n, n)) ns"
proof (induction ns arbitrary: m)
  case Nil
  then show ?case by simp
next
  case (Cons x xs)
  have step: "map_set m (key_of x) x = m @ [(key_of x, x)]"
    using Cons.prems by (simp add: map_set_absent)
  have "\<forall>n \<in> set xs. \<not> map_has (m @ [(key_of x, x)]) (key_of n)"
  proof
    fix n assume n: "n \<in> set xs"
    with Cons.prems(1) have "key_of n \<noteq> key_of x"
      by (metis distinct.simps(2) image_eqI list.simps(9) set_map)
    moreover from n Cons.prems(2) have "\<not> map_has m (key_of n)" by simp
    ultimately show "\<not> map_has (m @ [(key_of x, x)]) (key_of n)" by (simp add: map_has_def)
  qed
  with Cons.IH[of "m @ [(key_of x, x)]"] Cons.prems(1) step show ?case by simp
qed

lemma noteMap_distinct_keys:
  "distinct (map key_of ns) \<Longrightarrow> noteMap ns = map (\<lambda>n. (key_of n, n)) ns"
  using fold_append[of ns "[]"] by (simp add: noteMap_foldl map_has_def)

section \<open>Toggling a cell\<close>

lemma toggleNote_selected:
  assumes "selectedPattern c = Some sp"
  shows "toggleNote c stepIndex p =
           Inr (c\<lparr>noteGrid :=
                   (if map_has (noteGrid c) (note_key stepIndex p)
                    then map_delete (noteGrid c) (note_key stepIndex p)
                    else map_set (noteGrid c) (note_key stepIndex p)
                           \<lparr>pattern_id = pat_id sp, step_index = stepIndex, pitch = p,
                            velocity = 100, note_id = ''temp''\<rparr>)\<rparr>)"
  using assms by (simp add: toggleNote_def Let_def)

text \<open>
  C5. Toggle is its own inverse: when the key of (step, pitch) is not in the grid, two
  toggles of that cell give back the state they started from. With a pattern selected (the
  only state in which the note grid is rendered) both toggles succeed; with none selected
  the first toggle throws and nothing changes.
\<close>

theorem toggleNote_twice:
  assumes "\<not> map_has (noteGrid c) (note_key stepIndex p)"
  shows "(selectedPattern c \<noteq> None \<longrightarrow>
            (\<exists>c'. toggleNote c stepIndex p = Inr c' \<and> toggleNote c' stepIndex p = Inr c))
         \<and> (selectedPattern c = None \<longrightarrow> toggleNote c stepIndex p = Inl TypeError)"
proof (cases "selectedPattern c")
  case None
  with assms show ?thesis by (simp add: toggleNote_def Let_def)
next
  case (Some sp)
  let ?n = "\<lparr>pattern_id = pat_id sp, step_index = stepIndex, pitch = p,
             velocity = 100, note_id = ''temp''\<rparr>"
  let ?c' = "c\<lparr>noteGrid := map_set (noteGrid c) (note_key stepIndex p) ?n\<rparr>"
  have first: "toggleNote c stepIndex p = Inr ?c'"
    using assms Some by (simp add: toggleNote_def Let_def)
  have "toggleNote ?c' stepIndex p
          = Inr (?c'\<lparr>noteGrid := map_delete (noteGrid ?c') (note_key stepIndex p)\<rparr>)"
    by (simp add: toggleNote_def Let_def map_has_set)
  also have "\<dots> = Inr c"
    using assms by (simp add: map_delete_set_absent)
  finally show ?thesis using first Some by simp
qed

theorem toggleNote_twice_witness:
  "\<not> map_has (noteGrid demo_client) (note_key 0 60)
   \<and> selectedPattern demo_client \<noteq> None
   \<and> (\<exists>c'. toggleNote demo_client 0 60 = Inr c' \<and> noteGrid c' \<noteq> []
          \<and> toggleNote c' 0 60 = Inr demo_client)"
proof -
  have h: "\<not> map_has (noteGrid demo_client) (note_key 0 60)"
    by (simp add: demo_client_def map_has_def)
  have s: "selectedPattern demo_client \<noteq> None" by (simp add: demo_client_def)
  from toggleNote_twice[OF h] s obtain c' where
    c': "toggleNote demo_client 0 60 = Inr c'" "toggleNote c' 0 60 = Inr demo_client"
    by blast
  from c'(1) have "noteGrid c' \<noteq> []"
    by (auto simp: toggleNote_def Let_def demo_client_def map_has_def map_set_def)
  with h s c' show ?thesis by blast
qed

text \<open>
  C6. With a pattern selected, \<open>toggleNote\<close> returns, and the state it returns differs
  from the old one at the key of (step, pitch) only: every other key of the grid holds the
  note it held before, and the project detail and the selection stay. The handler is a
  function of the editor's state alone: the store is no argument of it, no request reaches
  the service, and the toggle event leaves the store as it was.
\<close>

theorem toggleNote_frame:
  assumes "selectedPattern c = Some sp"
  shows "\<exists>c'. toggleNote c stepIndex p = Inr c'
           \<and> (\<forall>k. k \<noteq> note_key stepIndex p \<longrightarrow> map_get (noteGrid c') k = map_get (noteGrid c) k)
           \<and> projectDetail c' = projectDetail c \<and> selectedPattern c' = selectedPattern c
           \<and> (\<forall>w. ui w = c \<longrightarrow>
                  backend (apply_event w (ToggleNote stepIndex p)) = backend w)"
  by (simp add: toggleNote_selected[OF assms] map_get_set map_get_delete)

theorem toggleNote_frame_witness:
  "selectedPattern (demo_client\<lparr>noteGrid := [(''4-62'', demo_note)]\<rparr>) = Some demo_pattern
   \<and> (\<exists>c'. toggleNote (demo_client\<lparr>noteGrid := [(''4-62'', demo_note)]\<rparr>) 0 60 = Inr c'
          \<and> map_get (noteGrid c') ''4-62'' = Some demo_note
          \<and> map_get (noteGrid c') ''0-60'' \<noteq> None)
   \<and> ui (demo_world\<lparr>ui := demo_client\<lparr>noteGrid := [(''4-62'', demo_note)]\<rparr>\<rparr>)
       = demo_client\<lparr>noteGrid := [(''4-62'', demo_note)]\<rparr>
   \<and> backend (apply_event
                 (demo_world\<lparr>ui := demo_client\<lparr>noteGrid := [(''4-62'', demo_note)]\<rparr>\<rparr>)
                 (ToggleNote 0 60))
       = demo_store"
proof -
  let ?c = "demo_client\<lparr>noteGrid := [(''4-62'', demo_note)]\<rparr>"
  let ?w = "demo_world\<lparr>ui := ?c\<rparr>"
  have h: "selectedPattern ?c = Some demo_pattern" by (simp add: demo_client_def)
  have u: "ui ?w = ?c" by simp
  from toggleNote_frame[OF h, of 0 60] obtain c' where
    t: "toggleNote ?c 0 60 = Inr c'"
    and f: "\<forall>k. k \<noteq> note_key 0 60 \<longrightarrow> map_get (noteGrid c') k = map_get (noteGrid ?c) k"
    and b: "\<forall>w. ui w = ?c \<longrightarrow> backend (apply_event w (ToggleNote 0 60)) = backend w"
    by blast
  have k: "note_key 0 60 = ''0-60''" by (simp add: show_simps)
  from f k have "map_get (noteGrid c') ''4-62'' = Some demo_note"
    by (simp add: map_get_def)
  moreover from t have "map_get (noteGrid c') ''0-60'' \<noteq> None"
    by (auto simp: toggleNote_selected[OF h] k map_has_def map_get_set)
  moreover from b u have "backend (apply_event ?w (ToggleNote 0 60)) = backend ?w" by blast
  then have "backend (apply_event ?w (ToggleNote 0 60)) = demo_store"
    by (simp add: demo_world_def)
  ultimately show ?thesis using h t u by blast
qed

text \<open>
  C9. Whatever the grid held before, an entry that \<open>toggleNote\<close> adds sits at the key
  of (step, pitch) and carries velocity 100 and the placeholder identity "temp"; and a
  toggle of a free cell with a pattern selected does add such an entry. The handler takes
  the step and the pitch only, so no other velocity can be asked for.
\<close>

theorem toggleNote_inserts_temp:
  "(\<forall>c'. toggleNote c stepIndex p = Inr c' \<longrightarrow>
      (\<forall>(k, n) \<in> set (noteGrid c') - set (noteGrid c).
         k = note_key stepIndex p \<and> velocity n = 100 \<and> note_id n = ''temp''
         \<and> step_index n = stepIndex \<and> pitch n = p))
   \<and> (\<forall>sp. selectedPattern c = Some sp \<and> \<not> map_has (noteGrid c) (note_key stepIndex p) \<longrightarrow>
        (\<exists>c' n. toggleNote c stepIndex p = Inr c'
           \<and> map_get (noteGrid c') (note_key stepIndex p) = Some n
           \<and> velocity n = 100 \<and> note_id n = ''temp''))"
proof (intro conjI allI impI)
  fix c' assume t: "toggleNote c stepIndex p = Inr c'"
  show "\<forall>(k, n) \<in> set (noteGrid c') - set (noteGrid c).
         k = note_key stepIndex p \<and> velocity n = 100 \<and> note_id n = ''temp''
         \<and> step_index n = stepIndex \<and> pitch n = p"
  proof (cases "map_has (noteGrid c) (note_key stepIndex p)")
    case True
    with t have "noteGrid c' = map_delete (noteGrid c) (note_key stepIndex p)"
      by (auto simp: toggleNote_def Let_def)
    then show ?thesis using set_map_delete_subset[of "noteGrid c" "note_key stepIndex p"] by auto
  next
    case False
    with t obtain sp where sp: "selectedPattern c = Some sp"
      by (cases "selectedPattern c") (auto simp: toggleNote_def Let_def)
    with t False have "noteGrid c' = map_set (noteGrid c) (note_key stepIndex p)
        \<lparr>pattern_id = pat_id sp, step_index = stepIndex, pitch = p,
         velocity = 100, note_id = ''temp''\<rparr>"
      by (auto simp: toggleNote_selected[OF sp])
    then show ?thesis
      by (auto dest!: in_set_map_set)
  qed
next
  fix sp assume "selectedPattern c = Some sp \<and> \<not> map_has (noteGrid c) (note_key stepIndex p)"
  then show "\<exists>c' n. toggleNote c stepIndex p = Inr c'
           \<and> map_get (noteGrid c') (note_key stepIndex p) = Some n
           \<and> velocity n = 100 \<and> note_id n = ''temp''"
    by (simp add: toggleNote_def Let_def map_get_set)
qed

theorem toggleNote_inserts_temp_witness:
  "\<exists>c' n. toggleNote demo_client 3 71 = Inr c'
      \<and> set (noteGrid c') - set (noteGrid demo_client) = {(''3-71'', n)}
      \<and> velocity n = 100 \<and> note_id n = ''temp''"
proof -
  have k: "note_key 3 71 = ''3-71''" by (simp add: show_simps)
  have s: "selectedPattern demo_client = Some demo_pattern" by (simp add: demo_client_def)
  have a: "\<not> map_has (noteGrid demo_client) (note_key 3 71)"
    by (simp add: demo_client_def map_has_def)
  from toggleNote_inserts_temp[of demo_client 3 71] s a obtain c' n where
    t: "toggleNote demo_client 3 71 = Inr c'"
    and g: "map_get (noteGrid c') (note_key 3 71) = Some n"
    and v: "velocity n = 100" "note_id n = ''temp''"
    by blast
  from t a have "c' = demo_client\<lparr>noteGrid := map_set (noteGrid demo_client) (note_key 3 71)
      \<lparr>pattern_id = pat_id demo_pattern, step_index = 3, pitch = 71,
       velocity = 100, note_id = ''temp''\<rparr>\<rparr>"
    by (simp add: toggleNote_selected[OF s])
  then have grid: "noteGrid c' = [(''3-71'', \<lparr>pattern_id = ''1'', step_index = 3, pitch = 71,
                              velocity = 100, note_id = ''temp''\<rparr>)]"
    by (simp add: k demo_client_def demo_pattern_def map_set_def)
  with g k have "noteGrid c' = [(''3-71'', n)]" by (simp add: map_get_def)
  then have "set (noteGrid c') - set (noteGrid demo_client) = {(''3-71'', n)}"
    by (simp add: demo_client_def)
  with t v show ?thesis by blast
qed

section \<open>Finding the pattern of a cell\<close>

lemma non_overlappingD:
  assumes "non_overlapping ps" "p1 \<in> set ps" "p2 \<in> set ps" "p1 \<noteq> p2"
    "track_id p1 = track_id p2"
  shows "bar_range p1 \<inter> bar_range p2 = {}"
proof -
  from assms(1,2) have "\<forall>p2 \<in> set ps.
        p1 \<noteq> p2 \<and> track_id p1 = track_id p2 \<longrightarrow> bar_range p1 \<inter> bar_range p2 = {}"
    unfolding non_overlapping_def by (rule bspec)
  from bspec[OF this assms(3)] assms(4,5) show ?thesis by (rule_tac mp) (assumption, rule conjI)
qed

text \<open>
  C3. \<open>getPatternAtCell\<close> returns at most one pattern (an optional value). A pattern
  it returns is one of the project's patterns, on the given track, with
  \<open>start_bar \<le> bar < start_bar + length_bars\<close>; it returns none exactly when the
  project holds no such pattern (or is not loaded); and when the patterns do not overlap,
  the pattern returned is the only one that covers the bar.
\<close>

theorem getPatternAtCell_spec:
  "(\<forall>p. getPatternAtCell c t b = Some p \<longrightarrow>
        (\<exists>ps. projectDetail c = Some ps \<and> p \<in> set ps)
        \<and> track_id p = t \<and> start_bar p \<le> b \<and> b < start_bar p + length_bars p)
   \<and> ((getPatternAtCell c t b = None) =
        (\<forall>ps. projectDetail c = Some ps \<longrightarrow>
           (\<forall>p \<in> set ps. \<not> (track_id p = t \<and> start_bar p \<le> b \<and> b < start_bar p + length_bars p))))
   \<and> (\<forall>ps p q. projectDetail c = Some ps \<and> non_overlapping ps
          \<and> getPatternAtCell c t b = Some p
          \<and> q \<in> set ps \<and> track_id q = t \<and> start_bar q \<le> b \<and> b < start_bar q + length_bars q
        \<longrightarrow> q = p)"
  (is "?found \<and> ?none \<and> ?only")
proof -
  have found: "(\<exists>ps. projectDetail c = Some ps \<and> p \<in> set ps)
        \<and> track_id p = t \<and> start_bar p \<le> b \<and> b < start_bar p + length_bars p"
    if "getPatternAtCell c t b = Some p" for p
    using that by (cases "projectDetail c") (auto simp: getPatternAtCell_def find_Some_iff)
  have none: "(getPatternAtCell c t b = None) =
        (\<forall>ps. projectDetail c = Some ps \<longrightarrow>
           (\<forall>p \<in> set ps. \<not> (track_id p = t \<and> start_bar p \<le> b \<and> b < start_bar p + length_bars p)))"
    by (cases "projectDetail c") (auto simp: getPatternAtCell_def find_None_iff)
  have only: "q = p"
    if a: "projectDetail c = Some ps \<and> non_overlapping ps
          \<and> getPatternAtCell c t b = Some p
          \<and> q \<in> set ps \<and> track_id q = t \<and> start_bar q \<le> b \<and> b < start_bar q + length_bars q"
    for ps p q
  proof (rule ccontr)
    assume ne: "q \<noteq> p"
    from a found[of p] have p: "p \<in> set ps" "track_id p = t" "b \<in> bar_range p"
      by (auto simp: bar_range_def)
    from a have q: "q \<in> set ps" "track_id q = t" "b \<in> bar_range q"
      by (auto simp: bar_range_def)
    from a have "non_overlapping ps" by simp
    from non_overlappingD[OF this q(1) p(1) ne] p(2) q(2)
    have "bar_range q \<inter> bar_range p = {}" by simp
    with p(3) q(3) show False by (simp add: disjoint_iff)
  qed
  have ?found by (intro allI impI, erule found)
  moreover have ?none by (rule none)
  moreover have ?only by (intro allI impI, erule only)
  ultimately show ?thesis by (intro conjI)
qed

theorem getPatternAtCell_spec_witness:
  "getPatternAtCell demo_client ''0'' 3 = Some demo_pattern
   \<and> projectDetail demo_client = Some [demo_pattern] \<and> non_overlapping [demo_pattern]
   \<and> track_id demo_pattern = ''0'' \<and> start_bar demo_pattern \<le> 3
   \<and> 3 < start_bar demo_pattern + length_bars demo_pattern
   \<and> getPatternAtCell demo_client ''0'' 4 = None
   \<and> getPatternAtCell demo_client ''1'' 3 = None"
proof -
  have a: "getPatternAtCell demo_client ''0'' 3 = Some demo_pattern"
    by (simp add: getPatternAtCell_def demo_client_def demo_pattern_def)
  have n: "non_overlapping [demo_pattern]" by (simp add: non_overlapping_def)
  have b: "getPatternAtCell demo_client ''0'' 4 = None"
    and c: "getPatternAtCell demo_client ''1'' 3 = None"
    by (simp_all add: getPatternAtCell_def demo_client_def demo_pattern_def)
  from getPatternAtCell_spec[of demo_client "''0''" 3] a
  have "track_id demo_pattern = ''0'' \<and> start_bar demo_pattern \<le> 3
        \<and> 3 < start_bar demo_pattern + length_bars demo_pattern"
    by blast
  with a b c n show ?thesis by (simp add: demo_client_def)
qed

section \<open>Loading the notes of a pattern\<close>

text \<open>
  C10. The grid \<open>loadPatternNotes\<close> builds from a fetched note list has pairwise
  distinct keys; every entry is a fetched note filed under the string
  \<open>"{step_index}-{pitch}"\<close> of its own step and pitch; a cell (step, pitch) holds at most
  one entry; and the entry of a cell is the last note of the list with that step and pitch
  (none when the list has no such note).
\<close>

theorem loadPatternNotes_one_note_per_cell:
  "distinct (map fst (noteMap ns))
   \<and> (\<forall>(k, n) \<in> set (noteMap ns). k = note_key (step_index n) (pitch n) \<and> n \<in> set ns)
   \<and> (\<forall>s p. length (filter (\<lambda>(k, n). step_index n = s \<and> pitch n = p) (noteMap ns)) \<le> 1)
   \<and> (\<forall>s p. map_get (noteMap ns) (note_key s p)
              = find (\<lambda>n. step_index n = s \<and> pitch n = p) (rev ns))
   \<and> (\<forall>w i. getPatternNotes (backend w) i = Inr ns \<longrightarrow>
              noteGrid (ui (loadPatternNotes w i)) = noteMap ns)"
  (is "?d \<and> ?k \<and> ?f \<and> ?g \<and> ?l")
proof -
  have d: "distinct (map fst (noteMap ns))"
    using fold_distinct[of "[]" ns] by (simp add: noteMap_foldl)
  have k: "\<forall>(k, n) \<in> set (noteMap ns). k = key_of n \<and> (n \<in> set ns \<or> n \<in> {})"
    unfolding noteMap_foldl by (rule fold_keyed) simp
  have g: "map_get (noteMap ns) (note_key s p)
              = find (\<lambda>n. step_index n = s \<and> pitch n = p) (rev ns)" for s p
    by (simp add: noteMap_foldl fold_get find_key_of map_get_Nil split: option.splits)
  have f: "length (filter (\<lambda>(k, n). step_index n = s \<and> pitch n = p) (noteMap ns)) \<le> 1" for s p
  proof -
    have "filter (\<lambda>(k, n). step_index n = s \<and> pitch n = p) (noteMap ns)
            = filter (\<lambda>e. fst e = note_key s p) (noteMap ns)"
    proof (rule filter_cong[OF refl])
      fix e assume e: "e \<in> set (noteMap ns)"
      obtain k' n where kn: "e = (k', n)" by (cases e)
      with e k have "k' = note_key (step_index n) (pitch n)" by (auto simp: key_of_def)
      then have "(step_index n = s \<and> pitch n = p) = (k' = note_key s p)"
        using note_key_inj[of "step_index n" "pitch n" s p] by auto
      with kn show "(case e of (k, n) \<Rightarrow> step_index n = s \<and> pitch n = p) = (fst e = note_key s p)"
        by simp
    qed
    with filter_key_le1[OF d] show ?thesis by simp
  qed
  have l: "noteGrid (ui (loadPatternNotes w i)) = noteMap ns"
    if "getPatternNotes (backend w) i = Inr ns" for w i
    using that by (simp add: loadPatternNotes_def)
  have ?k using k by (auto simp: key_of_def)
  moreover have ?f using f by blast
  moreover have ?g using g by blast
  moreover have ?l using l by blast
  ultimately show ?thesis using d by (intro conjI)
qed

theorem loadPatternNotes_one_note_per_cell_witness:
  "getPatternNotes (backend (demo_world\<lparr>backend := demo_store\<lparr>stored_notes := demo_notes\<rparr>\<rparr>)) ''1''
     = Inr demo_notes
   \<and> noteGrid (ui (loadPatternNotes
        (demo_world\<lparr>backend := demo_store\<lparr>stored_notes := demo_notes\<rparr>\<rparr>) ''1''))
       = [(''4-62'', demo_note\<lparr>velocity := 50, note_id := ''9''\<rparr>),
          (''4-60'', demo_note\<lparr>pitch := 60, note_id := ''8''\<rparr>)]"
proof -
  let ?w = "demo_world\<lparr>backend := demo_store\<lparr>stored_notes := demo_notes\<rparr>\<rparr>"
  have f: "getPatternNotes (backend ?w) ''1'' = Inr demo_notes"
    by (simp add: getPatternNotes_def getNotes_def demo_world_def demo_store_def demo_notes_def
        demo_note_def demo_pattern_def)
  with loadPatternNotes_one_note_per_cell[of demo_notes]
  have "noteGrid (ui (loadPatternNotes ?w ''1'')) = noteMap demo_notes" by blast
  also have "\<dots> = [(''4-62'', demo_note\<lparr>velocity := 50, note_id := ''9''\<rparr>),
          (''4-60'', demo_note\<lparr>pitch := 60, note_id := ''8''\<rparr>)]"
    by (simp add: noteMap_def demo_notes_def demo_note_def map_set_def show_simps)
  finally show ?thesis using f by simp
qed

section \<open>The store keeps its patterns apart\<close>

lemma non_overlappingI:
  assumes "\<And>p1 p2. p1 \<in> set ps \<Longrightarrow> p2 \<in> set ps \<Longrightarrow> p1 \<noteq> p2 \<Longrightarrow>
             track_id p1 = track_id p2 \<Longrightarrow> bar_range p1 \<inter> bar_range p2 = {}"
  shows "non_overlapping ps"
  unfolding non_overlapping_def
proof (intro ballI impI)
  fix p1 p2
  assume "p1 \<in> set ps" "p2 \<in> set ps" "p1 \<noteq> p2 \<and> track_id p1 = track_id p2"
  then show "bar_range p1 \<inter> bar_range p2 = {}"
    using assms[of p1 p2] by (elim conjE)
qed

lemma non_overlapping_subset:
  assumes "non_overlapping ps" "set qs \<subseteq> set ps"
  shows "non_overlapping qs"
proof (rule non_overlappingI)
  fix p1 p2
  assume "p1 \<in> set qs" "p2 \<in> set qs" and ne: "p1 \<noteq> p2" and tr: "track_id p1 = track_id p2"
  with assms(2) have "p1 \<in> set ps" "p2 \<in> set ps" by auto
  from non_overlappingD[OF assms(1) this ne tr] show "bar_range p1 \<inter> bar_range p2 = {}" .
qed

lemma ids_issued_mono:
  assumes "ids_issued st" "set (stored_patterns st') \<subseteq> set (stored_patterns st)"
    "next_id st \<le> next_id st'"
  shows "ids_issued st'"
  unfolding ids_issued_def
proof
  fix p assume "p \<in> set (stored_patterns st')"
  with assms(2) have "p \<in> set (stored_patterns st)" by auto
  with assms(1) obtain k where "k < next_id st" "pat_id p = show_nat k"
    unfolding ids_issued_def by (drule_tac bspec) auto
  with assms(3) show "\<exists>k<next_id st'. pat_id p = show_nat k"
    by (intro exI[of _ k]) simp
qed

lemma store_inv_filter:
  assumes "store_inv st" "stored_patterns st' = filter P (stored_patterns st)"
    "next_id st \<le> next_id st'"
  shows "store_inv st'"
proof -
  from assms(1) have d: "distinct (map pat_id (stored_patterns st))"
    and i: "ids_issued st" and n: "non_overlapping (stored_patterns st)"
    by (simp_all add: store_inv_def)
  have sub: "set (stored_patterns st') \<subseteq> set (stored_patterns st)"
    by (simp add: assms(2))
  have "distinct (map pat_id (stored_patterns st'))"
    using d by (simp add: assms(2) distinct_map_filter)
  moreover have "ids_issued st'" by (rule ids_issued_mono[OF i sub assms(3)])
  moreover have "non_overlapping (stored_patterns st')" by (rule non_overlapping_subset[OF n sub])
  ultimately show ?thesis by (simp add: store_inv_def)
qed

lemma store_inv_same_patterns:
  assumes "store_inv st" "stored_patterns st' = stored_patterns st" "next_id st \<le> next_id st'"
  shows "store_inv st'"
  using store_inv_filter[OF assms(1) _ assms(3), of "\<lambda>_. True"] assms(2) by simp

lemma store_inv_addTrack:
  assumes "store_inv st" shows "store_inv (snd (addTrack st))"
  by (rule store_inv_same_patterns[OF assms]) (simp_all add: addTrack_def Let_def)

lemma store_inv_deleteTrack:
  assumes "store_inv st" shows "store_inv (snd (deleteTrack st t))"
proof (cases "t \<in> set (stored_tracks st)")
  case True
  show ?thesis
    by (rule store_inv_filter[OF assms, where P = "\<lambda>p. track_id p \<noteq> t"])
       (simp_all add: deleteTrack_def Let_def True)
next
  case False
  with assms show ?thesis by (simp add: deleteTrack_def)
qed

lemma store_inv_deletePattern:
  assumes "store_inv st" shows "store_inv (snd (deletePattern st i))"
proof (cases "i \<in> set (map pat_id (stored_patterns st))")
  case True
  show ?thesis
    by (rule store_inv_filter[OF assms, where P = "\<lambda>p. pat_id p \<noteq> i"])
       (simp_all add: deletePattern_def True del: set_map)
next
  case False
  with assms show ?thesis by (simp add: deletePattern_def del: set_map)
qed

lemma store_inv_replaceNotes:
  assumes "store_inv st" shows "store_inv (snd (replaceNotes st i ns))"
  by (rule store_inv_same_patterns[OF assms]) (simp_all add: replaceNotes_def Let_def del: set_map)


lemma non_overlapping_snoc:
  assumes n: "non_overlapping ps"
    and free: "\<And>q. q \<in> set ps \<Longrightarrow> track_id q = track_id p \<Longrightarrow> bar_range p \<inter> bar_range q = {}"
  shows "non_overlapping (ps @ [p])"
proof (rule non_overlappingI)
  fix p1 p2
  assume m1: "p1 \<in> set (ps @ [p])" and m2: "p2 \<in> set (ps @ [p])"
    and ne: "p1 \<noteq> p2" and tr: "track_id p1 = track_id p2"
  from m1 have c1: "p1 \<in> set ps \<or> p1 = p" by auto
  from m2 have c2: "p2 \<in> set ps \<or> p2 = p" by auto
  show "bar_range p1 \<inter> bar_range p2 = {}"
  proof (cases "p1 = p")
    case True
    with ne c2 have "p2 \<in> set ps" by metis
    from free[OF this] tr True show ?thesis by metis
  next
    case False
    with c1 have in1: "p1 \<in> set ps" by metis
    show ?thesis
    proof (cases "p2 = p")
      case True
      from free[OF in1] tr True have "bar_range p \<inter> bar_range p1 = {}" by metis
      with True show ?thesis by (metis Int_commute)
    next
      case False
      with c2 have "p2 \<in> set ps" by metis
      from non_overlappingD[OF n in1 this ne tr] show ?thesis .
    qed
  qed
qed

lemma find_NoneD: "find P xs = None \<Longrightarrow> x \<in> set xs \<Longrightarrow> \<not> P x"
  by (simp add: find_None_iff)

lemma find_SomeD: "find P xs = Some x \<Longrightarrow> x \<in> set xs \<and> P x"
  by (auto simp: find_Some_iff)

lemma fresh_id_new:
  assumes "ids_issued st"
  shows "show_nat (next_id st) \<notin> set (map pat_id (stored_patterns st))"
proof
  assume "show_nat (next_id st) \<in> set (map pat_id (stored_patterns st))"
  then obtain q where q: "q \<in> set (stored_patterns st)" "pat_id q = show_nat (next_id st)"
    by auto
  from assms q(1) obtain k where "k < next_id st" "pat_id q = show_nat k"
    unfolding ids_issued_def by (drule_tac bspec) auto
  with q(2) show False using show_nat_inj[of k "next_id st"] by simp
qed

lemma addPattern_created:
  assumes "addPattern st t pc = (Inr p, st')"
  shows "t \<in> set (stored_tracks st)
         \<and> find (\<lambda>q. track_id q = t \<and> bar_range pc \<inter> bar_range q \<noteq> {}) (stored_patterns st) = None
         \<and> p = \<lparr>name = name pc, length_bars = length_bars pc, start_bar = start_bar pc,
                  pat_id = show_nat (next_id st), track_id = t\<rparr>
         \<and> st' = st\<lparr>stored_patterns := stored_patterns st @ [p], next_id := Suc (next_id st)\<rparr>"
  using assms by (auto simp: addPattern_def Let_def split: if_splits option.splits)

lemma addPattern_failed:
  assumes "addPattern st t pc = (Inl e, st')"
  shows "st' = st"
  using assms by (auto simp: addPattern_def Let_def split: if_splits option.splits)

lemma store_inv_addPattern:
  assumes inv: "store_inv st" shows "store_inv (snd (addPattern st t pc))"
proof (cases "addPattern st t pc")
  case (Pair r st')
  show ?thesis
  proof (cases r)
    case (Inl e)
    with Pair addPattern_failed[of st t pc e st'] inv show ?thesis by simp
  next
    case (Inr p)
    with Pair have a: "addPattern st t pc = (Inr p, st')" by simp
    note c = addPattern_created[OF a]
    from c have p: "pat_id p = show_nat (next_id st)" "track_id p = t"
      "bar_range p = bar_range pc"
      by (simp_all add: bar_range_def)
    from c have st': "stored_patterns st' = stored_patterns st @ [p]"
      "next_id st' = Suc (next_id st)" by simp_all
    from inv have d: "distinct (map pat_id (stored_patterns st))"
      and i: "ids_issued st" and n: "non_overlapping (stored_patterns st)"
      by (simp_all add: store_inv_def)
    have "distinct (map pat_id (stored_patterns st'))"
      using d fresh_id_new[OF i] p(1) by (simp add: st' del: set_map)
    moreover have "ids_issued st'"
      unfolding ids_issued_def
    proof
      fix q assume "q \<in> set (stored_patterns st')"
      then have "q \<in> set (stored_patterns st) \<or> q = p" by (auto simp: st')
      then show "\<exists>k<next_id st'. pat_id q = show_nat k"
      proof
        assume "q \<in> set (stored_patterns st)"
        with i obtain k where "k < next_id st" "pat_id q = show_nat k"
          unfolding ids_issued_def by (drule_tac bspec) auto
        then show ?thesis by (intro exI[of _ k]) (simp add: st')
      next
        assume "q = p"
        with p(1) show ?thesis by (intro exI[of _ "next_id st"]) (simp add: st')
      qed
    qed
    moreover have "non_overlapping (stored_patterns st')"
      unfolding st'
    proof (rule non_overlapping_snoc[OF n])
      fix q assume q: "q \<in> set (stored_patterns st)" "track_id q = track_id p"
      from c have "find (\<lambda>q. track_id q = t \<and> bar_range pc \<inter> bar_range q \<noteq> {}) (stored_patterns st) = None"
        by simp
      from find_NoneD[OF this q(1)] q(2) p show "bar_range p \<inter> bar_range q = {}" by simp
    qed
    ultimately show ?thesis using Pair by (simp add: store_inv_def)
  qed
qed


lemma non_overlapping_replace:
  assumes n: "non_overlapping ps"
    and tr': "track_id p' = track_id p"
    and free: "\<And>q. q \<in> set ps \<Longrightarrow> pat_id q \<noteq> i \<Longrightarrow> track_id q = track_id p \<Longrightarrow>
                 bar_range p' \<inter> bar_range q = {}"
  shows "non_overlapping (map (\<lambda>q. if pat_id q = i then p' else q) ps)"
proof (rule non_overlappingI)
  fix p1 p2
  let ?new = "map (\<lambda>q. if pat_id q = i then p' else q) ps"
  assume m1: "p1 \<in> set ?new" and m2: "p2 \<in> set ?new"
    and ne: "p1 \<noteq> p2" and tr: "track_id p1 = track_id p2"
  have mem: "x = p' \<or> (x \<in> set ps \<and> pat_id x \<noteq> i)" if "x \<in> set ?new" for x
    using that by (auto split: if_splits)
  show "bar_range p1 \<inter> bar_range p2 = {}"
  proof (cases "p1 = p'")
    case True
    with ne mem[OF m2] have "p2 \<in> set ps \<and> pat_id p2 \<noteq> i" by metis
    with free[of p2] tr True tr' show ?thesis by metis
  next
    case False
    with mem[OF m1] have in1: "p1 \<in> set ps" "pat_id p1 \<noteq> i" by metis+
    show ?thesis
    proof (cases "p2 = p'")
      case True
      with free[OF in1] tr tr' have "bar_range p' \<inter> bar_range p1 = {}" by metis
      with True show ?thesis by (metis Int_commute)
    next
      case False
      with mem[OF m2] have "p2 \<in> set ps" by metis
      from non_overlappingD[OF n in1(1) this ne tr] show ?thesis .
    qed
  qed
qed

lemma updatePattern_cases:
  "(\<exists>e. updatePattern st i u = (Inl e, st))
   \<or> (\<exists>p. find (\<lambda>p. pat_id p = i) (stored_patterns st) = Some p
          \<and> updatePattern st i u =
              (Inr (patched p u),
               st\<lparr>stored_patterns :=
                    map (\<lambda>q. if pat_id q = i then patched p u else q) (stored_patterns st)\<rparr>)
          \<and> ((start_bar (patched p u) = start_bar p \<and> length_bars (patched p u) = length_bars p)
              \<or> find (\<lambda>q. pat_id q \<noteq> i \<and> track_id q = track_id p
                             \<and> bar_range (patched p u) \<inter> bar_range q \<noteq> {})
                   (stored_patterns st) = None))"
proof (cases "find (\<lambda>p. pat_id p = i) (stored_patterns st)")
  case None
  then show ?thesis by (simp add: updatePattern_def)
next
  case (Some p)
  show ?thesis
  proof (cases "start_bar (patched p u) = start_bar p \<and> length_bars (patched p u) = length_bars p")
    case True
    with Some have "updatePattern st i u =
              (Inr (patched p u),
               st\<lparr>stored_patterns :=
                    map (\<lambda>q. if pat_id q = i then patched p u else q) (stored_patterns st)\<rparr>)"
      by (simp add: updatePattern_def Let_def)
    with Some True show ?thesis by blast
  next
    case False
    show ?thesis
    proof (cases "find (\<lambda>q. pat_id q \<noteq> i \<and> track_id q = track_id p
                             \<and> bar_range (patched p u) \<inter> bar_range q \<noteq> {})
                   (stored_patterns st)")
      case None
      with Some False have "updatePattern st i u =
              (Inr (patched p u),
               st\<lparr>stored_patterns :=
                    map (\<lambda>q. if pat_id q = i then patched p u else q) (stored_patterns st)\<rparr>)"
        by (simp add: updatePattern_def Let_def)
      with Some None show ?thesis by blast
    next
      case (Some q)
      with \<open>find (\<lambda>p. pat_id p = i) (stored_patterns st) = Some p\<close> False
      have "updatePattern st i u = (Inl (OverlapError (pat_id q)), st)"
        by (simp add: updatePattern_def Let_def)
      then show ?thesis by blast
    qed
  qed
qed

lemma store_inv_updatePattern:
  assumes inv: "store_inv st" shows "store_inv (snd (updatePattern st i u))"
proof -
  from inv have d: "distinct (map pat_id (stored_patterns st))"
    and iss: "ids_issued st" and n: "non_overlapping (stored_patterns st)"
    by (simp_all add: store_inv_def)
  from updatePattern_cases[of st i u] consider
    (failed) e where "updatePattern st i u = (Inl e, st)"
  | (updated) p where "find (\<lambda>p. pat_id p = i) (stored_patterns st) = Some p"
      "updatePattern st i u =
         (Inr (patched p u),
          st\<lparr>stored_patterns :=
               map (\<lambda>q. if pat_id q = i then patched p u else q) (stored_patterns st)\<rparr>)"
      "(start_bar (patched p u) = start_bar p \<and> length_bars (patched p u) = length_bars p)
       \<or> find (\<lambda>q. pat_id q \<noteq> i \<and> track_id q = track_id p
                      \<and> bar_range (patched p u) \<inter> bar_range q \<noteq> {})
            (stored_patterns st) = None"
    by blast
  then show ?thesis
  proof cases
    case (failed e)
    with inv show ?thesis by simp
  next
    case (updated p)
    let ?p' = "patched p u"
    let ?new = "map (\<lambda>q. if pat_id q = i then ?p' else q) (stored_patterns st)"
    note f = updated(1) and upd = updated(2) and ok = updated(3)
    from find_SomeD[OF f] have p: "p \<in> set (stored_patterns st)" "pat_id p = i" by simp_all
    have p': "pat_id ?p' = i" "track_id ?p' = track_id p"
      using p(2) by (simp_all add: patched_def)
    have ids: "map pat_id ?new = map pat_id (stored_patterns st)"
      using p'(1) by (induction "stored_patterns st") auto
    have free: "bar_range ?p' \<inter> bar_range q = {}"
      if q: "q \<in> set (stored_patterns st)" "pat_id q \<noteq> i" "track_id q = track_id p" for q
      using ok
    proof
      assume "start_bar ?p' = start_bar p \<and> length_bars ?p' = length_bars p"
      then have "bar_range ?p' = bar_range p" by (simp add: bar_range_def)
      moreover from q(2) p(2) have "p \<noteq> q" by metis
      from non_overlappingD[OF n p(1) q(1) this] q(3)
      have "bar_range p \<inter> bar_range q = {}" by simp
      ultimately show ?thesis by simp
    next
      assume "find (\<lambda>q. pat_id q \<noteq> i \<and> track_id q = track_id p
                             \<and> bar_range ?p' \<inter> bar_range q \<noteq> {})
                   (stored_patterns st) = None"
      from find_NoneD[OF this q(1)] q(2,3) show ?thesis by simp
    qed
    have "distinct (map pat_id ?new)" by (subst ids) (rule d)
    moreover have "ids_issued (st\<lparr>stored_patterns := ?new\<rparr>)"
      unfolding ids_issued_def
    proof
      fix q assume "q \<in> set (stored_patterns (st\<lparr>stored_patterns := ?new\<rparr>))"
      then have "pat_id q \<in> set (map pat_id ?new)" by (simp del: map_map)
      with ids have "pat_id q \<in> set (map pat_id (stored_patterns st))" by simp
      then obtain q' where "q' \<in> set (stored_patterns st)" "pat_id q' = pat_id q" by auto
      with iss obtain k where "k < next_id st" "pat_id q = show_nat k"
        unfolding ids_issued_def by (drule_tac bspec) auto
      then show "\<exists>k<next_id (st\<lparr>stored_patterns := ?new\<rparr>). pat_id q = show_nat k"
        by (intro exI[of _ k]) simp
    qed
    moreover have "non_overlapping ?new"
      by (rule non_overlapping_replace[OF n p'(2)]) (rule free)
    ultimately show ?thesis using upd by (simp add: store_inv_def)
  qed
qed

section \<open>Sessions keep the invariants\<close>

lemma notes_valid_filter:
  assumes "notes_valid st" "stored_notes st' = filter P (stored_notes st)"
  shows "notes_valid st'"
  using assms by (simp add: notes_valid_def)

lemma notes_valid_addTrack: "notes_valid st \<Longrightarrow> notes_valid (snd (addTrack st))"
  by (simp add: notes_valid_def addTrack_def Let_def)

lemma notes_valid_addPattern: "notes_valid st \<Longrightarrow> notes_valid (snd (addPattern st t pc))"
  by (simp add: notes_valid_def addPattern_def Let_def split: option.splits)

lemma notes_valid_updatePattern: "notes_valid st \<Longrightarrow> notes_valid (snd (updatePattern st i u))"
  by (simp add: notes_valid_def updatePattern_def Let_def split: option.splits)

lemma notes_valid_deletePattern: "notes_valid st \<Longrightarrow> notes_valid (snd (deletePattern st i))"
  by (simp add: notes_valid_def deletePattern_def del: set_map)

lemma notes_valid_deleteTrack: "notes_valid st \<Longrightarrow> notes_valid (snd (deleteTrack st t))"
  by (simp add: notes_valid_def deleteTrack_def Let_def del: set_map)

lemma replaceNotes_cases:
  "(\<exists>e. replaceNotes st i ns = (Inl e, st)
        \<and> ((\<exists>n \<in> set ns. \<not> valid_entry n) \<or> i \<notin> set (map pat_id (stored_patterns st))))
   \<or> ((\<forall>n \<in> set ns. valid_entry n) \<and> i \<in> set (map pat_id (stored_patterns st))
       \<and> (\<exists>created. replaceNotes st i ns =
              (Inr created,
               st\<lparr>stored_notes := filter (\<lambda>n. pattern_id n \<noteq> i) (stored_notes st) @ created,
                   next_id := next_id st + length ns\<rparr>)
            \<and> map pattern_id created = map (\<lambda>_. i) ns
            \<and> map step_index created = map step_index ns
            \<and> map pitch created = map pitch ns
            \<and> map velocity created = map velocity ns))"
proof (cases "\<exists>n \<in> set ns. \<not> valid_entry n")
  case True
  then show ?thesis by (simp add: replaceNotes_def)
next
  case False
  note valid = this
  show ?thesis
  proof (cases "i \<in> set (map pat_id (stored_patterns st))")
    case False
    with valid show ?thesis by (simp add: replaceNotes_def del: set_map)
  next
    case True
    let ?created = "map (\<lambda>(k, n). \<lparr>pattern_id = i, step_index = step_index n,
                                  pitch = pitch n, velocity = velocity n,
                                  note_id = show_nat (next_id st + k)\<rparr>)
                    (enumerate 0 ns)"
    have f: "map f ?created = map (\<lambda>(k, n). f \<lparr>pattern_id = i, step_index = step_index n,
                                  pitch = pitch n, velocity = velocity n,
                                  note_id = show_nat (next_id st + k)\<rparr>) (enumerate 0 ns)"
      for f :: "midi_note \<Rightarrow> 'b"
      by (simp add: case_prod_unfold comp_def)
    have g: "map (\<lambda>(k, n). h n) (enumerate 0 ns) = map h ns" for h :: "note_create \<Rightarrow> 'c"
    proof -
      have "map (\<lambda>(k, n). h n) (enumerate 0 ns) = map (h \<circ> snd) (enumerate 0 ns)"
        by (simp add: case_prod_unfold comp_def)
      also have "\<dots> = map h (map snd (enumerate 0 ns))" by (simp only: map_map)
      also have "\<dots> = map h ns" by simp
      finally show ?thesis .
    qed
    have "map pattern_id ?created = map (\<lambda>_. i) ns"
      "map step_index ?created = map step_index ns"
      "map pitch ?created = map pitch ns"
      "map velocity ?created = map velocity ns"
      by (simp_all only: f note_create.simps midi_note.simps g)
    moreover have "replaceNotes st i ns =
              (Inr ?created,
               st\<lparr>stored_notes := filter (\<lambda>n. pattern_id n \<noteq> i) (stored_notes st) @ ?created,
                   next_id := next_id st + length ns\<rparr>)"
      using valid True by (simp add: replaceNotes_def Let_def del: set_map)
    ultimately show ?thesis using valid True by blast
  qed
qed


lemma valid_entry_fields:
  "valid_entry n = (0 \<le> step_index n \<and> step_index n < 16 \<and> 0 \<le> velocity n \<and> velocity n \<le> 127)"
  by (simp add: valid_entry_def STEPS_PER_PATTERN_def)

lemma valid_entry_transfer:
  assumes "map step_index xs = map step_index ys" "map velocity xs = map velocity ys"
    "\<forall>y \<in> set ys. valid_entry y"
  shows "\<forall>x \<in> set xs. valid_entry x"
proof
  fix x assume "x \<in> set xs"
  then obtain k where k: "k < length xs" "xs ! k = x" by (auto simp: in_set_conv_nth)
  from assms(1) have len: "length xs = length ys" by (rule map_eq_imp_length_eq)
  from assms(1) k len have s: "step_index x = step_index (ys ! k)"
    by (metis nth_map)
  from assms(2) k len have v: "velocity x = velocity (ys ! k)"
    by (metis nth_map)
  from k len assms(3) have "valid_entry (ys ! k)" by simp
  with s v show "valid_entry x" by (simp add: valid_entry_fields)
qed

lemma notes_valid_replaceNotes:
  assumes "notes_valid st" shows "notes_valid (snd (replaceNotes st i ns))"
proof -
  from replaceNotes_cases[of st i ns] consider
    (failed) e where "replaceNotes st i ns = (Inl e, st)"
  | (replaced) created where "\<forall>n \<in> set ns. valid_entry n"
      "replaceNotes st i ns =
              (Inr created,
               st\<lparr>stored_notes := filter (\<lambda>n. pattern_id n \<noteq> i) (stored_notes st) @ created,
                   next_id := next_id st + length ns\<rparr>)"
      "map step_index created = map step_index ns" "map velocity created = map velocity ns"
    by blast
  then show ?thesis
  proof cases
    case (failed e)
    with assms show ?thesis by simp
  next
    case (replaced created)
    from valid_entry_transfer[OF replaced(3,4,1)] assms replaced(2)
    show ?thesis by (auto simp: notes_valid_def)
  qed
qed

lemma store_inv_apply: "store_inv st \<Longrightarrow> store_inv (apply_store_op st op)"
  by (cases op)
     (simp_all add: store_inv_addTrack store_inv_deleteTrack store_inv_addPattern
        store_inv_updatePattern store_inv_deletePattern store_inv_replaceNotes)

lemma notes_valid_apply: "notes_valid st \<Longrightarrow> notes_valid (apply_store_op st op)"
  by (cases op)
     (simp_all add: notes_valid_addTrack notes_valid_deleteTrack notes_valid_addPattern
        notes_valid_updatePattern notes_valid_deletePattern notes_valid_replaceNotes)

lemma handleCellClick_backend:
  "backend (handleCellClick w t b) = backend w
   \<or> backend (handleCellClick w t b) =
       snd (addPattern (backend w) t
              \<lparr>name = ''Pattern '' @ show_int (b + 1), length_bars = 2, start_bar = b\<rparr>)"
  by (auto simp: handleCellClick_def createPattern_def loadProjectDetail_def Let_def
           split: option.splits prod.splits sum.splits)

lemma loadPatternNotes_backend: "backend (loadPatternNotes w i) = backend w"
  by (simp add: loadPatternNotes_def split: sum.splits)

lemma handleSaveNotes_selected:
  assumes "selectedPattern (ui w) = Some sp"
  shows "handleSaveNotes w =
     (case replaceNotes (backend w) (pat_id sp)
             (map (\<lambda>n. \<lparr>pattern_id = pat_id sp, step_index = step_index n,
                          pitch = pitch n, velocity = velocity n\<rparr>)
                (map_values (noteGrid (ui w)))) of
        (Inl e, st') \<Rightarrow> w\<lparr>backend := st'\<rparr>
      | (Inr saved, st') \<Rightarrow> loadPatternNotes (w\<lparr>backend := st'\<rparr>) (pat_id sp))"
  using assms
  by (simp add: handleSaveNotes_def replacePatternNotes_def createNotesBulk_def Let_def)

lemma handleSaveNotes_backend:
  "backend (handleSaveNotes w) = backend w
   \<or> (\<exists>i ns. backend (handleSaveNotes w) = snd (replaceNotes (backend w) i ns))"
proof (cases "selectedPattern (ui w)")
  case None
  then show ?thesis by (simp add: handleSaveNotes_def)
next
  case (Some sp)
  let ?ns = "map (\<lambda>n. \<lparr>pattern_id = pat_id sp, step_index = step_index n,
                          pitch = pitch n, velocity = velocity n\<rparr>)
                (map_values (noteGrid (ui w)))"
  have "backend (handleSaveNotes w) = snd (replaceNotes (backend w) (pat_id sp) ?ns)"
    by (cases "replaceNotes (backend w) (pat_id sp) ?ns")
       (simp add: handleSaveNotes_selected[OF Some] loadPatternNotes_backend split: sum.splits)
  then show ?thesis by blast
qed

lemma handleCellClick_grid: "noteGrid (ui (handleCellClick w t b)) = noteGrid (ui w)"
  by (simp add: handleCellClick_def loadProjectDetail_def Let_def
           split: option.splits prod.splits sum.splits)

lemma grid_keyed_noteMap: "grid_keyed (noteMap ns)"
proof -
  have "distinct (map fst (noteMap ns))"
    using fold_distinct[of "[]" ns] by (simp add: noteMap_foldl)
  moreover have "\<forall>(k, n) \<in> set (noteMap ns). k = key_of n \<and> (n \<in> set ns \<or> n \<in> {})"
    unfolding noteMap_foldl by (rule fold_keyed) simp
  ultimately show ?thesis by (auto simp: grid_keyed_def key_of_def)
qed

lemma grid_valid_noteMap: "\<forall>n \<in> set ns. valid_entry n \<Longrightarrow> grid_valid (noteMap ns)"
proof -
  assume v: "\<forall>n \<in> set ns. valid_entry n"
  have "\<forall>(k, n) \<in> set (noteMap ns). k = key_of n \<and> (n \<in> set ns \<or> n \<in> {})"
    unfolding noteMap_foldl by (rule fold_keyed) simp
  with v show ?thesis by (auto simp: grid_valid_def)
qed

lemma getNotes_valid:
  "notes_valid st \<Longrightarrow> getNotes st i = Inr ns \<Longrightarrow> \<forall>n \<in> set ns. valid_entry n"
  by (auto simp: notes_valid_def getNotes_def split: if_splits)

lemma loadPatternNotes_grid:
  assumes "notes_valid (backend w)" "grid_keyed (noteGrid (ui w))" "grid_valid (noteGrid (ui w))"
  shows "grid_keyed (noteGrid (ui (loadPatternNotes w i)))
         \<and> grid_valid (noteGrid (ui (loadPatternNotes w i)))"
proof (cases "getPatternNotes (backend w) i")
  case (Inl e)
  with assms show ?thesis by (simp add: loadPatternNotes_def)
next
  case (Inr ns)
  then have "\<forall>n \<in> set ns. valid_entry n"
    using getNotes_valid[OF assms(1), of i ns] by (simp add: getPatternNotes_def)
  with Inr show ?thesis
    by (simp add: loadPatternNotes_def grid_keyed_noteMap grid_valid_noteMap)
qed

lemma grid_keyed_delete: "grid_keyed g \<Longrightarrow> grid_keyed (map_delete g k)"
  using set_map_delete_subset[of g k]
  by (auto simp: grid_keyed_def map_delete_def distinct_delete)

lemma grid_valid_delete: "grid_valid g \<Longrightarrow> grid_valid (map_delete g k)"
  using set_map_delete_subset[of g k] by (auto simp: grid_valid_def)

lemma grid_keyed_set:
  "grid_keyed g \<Longrightarrow> k = note_key (step_index n) (pitch n) \<Longrightarrow> grid_keyed (map_set g k n)"
  by (auto simp: grid_keyed_def map_set_def distinct_update dest!: in_set_map_set[unfolded map_set_def])

lemma grid_valid_set: "grid_valid g \<Longrightarrow> valid_entry n \<Longrightarrow> grid_valid (map_set g k n)"
  by (auto simp: grid_valid_def dest!: in_set_map_set)

lemma toggleNote_grid:
  assumes "toggleNote c s p = Inr c'" "grid_keyed (noteGrid c)"
  shows "grid_keyed (noteGrid c')"
    and "grid_valid (noteGrid c) \<Longrightarrow> 0 \<le> s \<Longrightarrow> s < NUM_STEPS \<Longrightarrow> grid_valid (noteGrid c')"
proof -
  show "grid_keyed (noteGrid c')"
    using assms
    by (auto simp: toggleNote_def Let_def grid_keyed_delete grid_keyed_set
             split: if_splits option.splits)
  show "grid_valid (noteGrid c')" if "grid_valid (noteGrid c)" "0 \<le> s" "s < NUM_STEPS"
    using assms(1) that
    by (auto simp: toggleNote_def Let_def grid_valid_delete grid_valid_set NUM_STEPS_def
                   valid_entry_fields
             split: if_splits option.splits)
qed


lemma world_inv_backend:
  assumes "world_inv w" "store_inv st" "notes_valid st"
  shows "world_inv (w\<lparr>backend := st\<rparr>)"
  using assms by (simp add: world_inv_def)

lemma world_inv_loadPatternNotes:
  assumes "world_inv w" shows "world_inv (loadPatternNotes w i)"
  using assms loadPatternNotes_grid[of w i]
  by (simp add: world_inv_def loadPatternNotes_backend)

lemma world_inv_handleCellClick:
  assumes "world_inv w" shows "world_inv (handleCellClick w t b)"
proof -
  from handleCellClick_backend[of w t b] assms
  have "store_inv (backend (handleCellClick w t b))
        \<and> notes_valid (backend (handleCellClick w t b))"
    by (auto simp: world_inv_def store_inv_addPattern notes_valid_addPattern)
  with assms show ?thesis by (simp add: world_inv_def handleCellClick_grid)
qed

lemma world_inv_handleSaveNotes:
  assumes "world_inv w" shows "world_inv (handleSaveNotes w)"
proof (cases "selectedPattern (ui w)")
  case None
  with assms show ?thesis by (simp add: handleSaveNotes_def)
next
  case (Some sp)
  let ?ns = "map (\<lambda>n. \<lparr>pattern_id = pat_id sp, step_index = step_index n,
                          pitch = pitch n, velocity = velocity n\<rparr>)
                (map_values (noteGrid (ui w)))"
  obtain r st' where r: "replaceNotes (backend w) (pat_id sp) ?ns = (r, st')"
    by (cases "replaceNotes (backend w) (pat_id sp) ?ns")
  from assms have "store_inv (snd (replaceNotes (backend w) (pat_id sp) ?ns))"
    "notes_valid (snd (replaceNotes (backend w) (pat_id sp) ?ns))"
    by (simp_all add: world_inv_def store_inv_replaceNotes notes_valid_replaceNotes)
  with r have "store_inv st'" "notes_valid st'" by simp_all
  from world_inv_backend[OF assms this] have w': "world_inv (w\<lparr>backend := st'\<rparr>)" .
  show ?thesis
  proof (cases r)
    case (Inl e)
    with r w' show ?thesis by (simp add: handleSaveNotes_selected[OF Some])
  next
    case (Inr saved)
    with r world_inv_loadPatternNotes[OF w'] show ?thesis
      by (simp add: handleSaveNotes_selected[OF Some])
  qed
qed

lemma world_inv_toggle:
  assumes "world_inv w" "0 \<le> s" "s < NUM_STEPS" "toggleNote (ui w) s p = Inr c"
  shows "world_inv (w\<lparr>ui := c\<rparr>)"
  using assms toggleNote_grid[OF assms(4)] by (simp add: world_inv_def)

lemma world_inv_apply_event:
  assumes "world_inv w" shows "world_inv (apply_event w e)"
proof (cases e)
  case (Request op)
  with assms show ?thesis
    by (simp add: world_inv_def store_inv_apply notes_valid_apply)
next
  case LoadProjectDetail
  with assms show ?thesis by (simp add: world_inv_def loadProjectDetail_def)
next
  case (CellClick t b)
  with assms show ?thesis by (simp add: world_inv_handleCellClick)
next
  case LoadSelectedNotes
  with assms show ?thesis by (simp add: world_inv_loadPatternNotes split: option.splits)
next
  case (ToggleNote s p)
  with assms show ?thesis by (auto simp: world_inv_toggle split: sum.splits)
next
  case SaveNotes
  with assms show ?thesis by (simp add: world_inv_handleSaveNotes)
qed

lemma world_inv_initial: "world_inv initial_world"
  by (simp add: world_inv_def initial_world_def empty_store_def store_inv_def ids_issued_def
      non_overlapping_def notes_valid_def grid_keyed_def grid_valid_def)

lemma world_inv_foldl: "world_inv w \<Longrightarrow> world_inv (foldl apply_event w evs)"
  by (induction evs arbitrary: w) (simp_all add: world_inv_apply_event)

lemma world_inv_run: "world_inv (run evs)"
  unfolding run_def by (rule world_inv_foldl[OF world_inv_initial])

lemma length_le1_all_equal:
  assumes "distinct xs" "\<And>x y. x \<in> set xs \<Longrightarrow> y \<in> set xs \<Longrightarrow> x = y"
  shows "length xs \<le> 1"
proof (cases xs)
  case Nil
  then show ?thesis by simp
next
  case (Cons x ys)
  show ?thesis
  proof (cases ys)
    case Nil
    with Cons show ?thesis by simp
  next
    case (Cons y zs)
    with \<open>xs = x # ys\<close> assms(2)[of x y] have "x = y" by simp
    with Cons \<open>xs = x # ys\<close> assms(1) show ?thesis by simp
  qed
qed

lemma covering_le1:
  assumes "distinct (map pat_id ps)" "non_overlapping ps"
  shows "length (covering ps t b) \<le> 1"
proof (rule length_le1_all_equal)
  from assms(1) have "distinct ps" by (simp add: distinct_map)
  then show "distinct (covering ps t b)" by (simp add: covering_def)
next
  fix x y assume "x \<in> set (covering ps t b)" "y \<in> set (covering ps t b)"
  then have x: "x \<in> set ps" "track_id x = t" "b \<in> bar_range x"
    and y: "y \<in> set ps" "track_id y = t" "b \<in> bar_range y"
    by (simp_all add: covering_def)
  show "x = y"
  proof (rule ccontr)
    assume "x \<noteq> y"
    from non_overlappingD[OF assms(2) x(1) y(1) this] x(2) y(2)
    have "bar_range x \<inter> bar_range y = {}" by simp
    with x(3) y(3) show False by (simp add: disjoint_iff)
  qed
qed

text \<open>
  C2. After every sequence of events (requests to the store by any client, and the
  editor's clicks, toggles, loads and saves) starting from the empty store, no two distinct
  patterns of one track have intersecting bar ranges, and a bar of a track is covered by at
  most one pattern. Each single step keeps the store's invariant: every store operation,
  the grid click, every event.
\<close>

theorem patterns_never_overlap:
  "non_overlapping (stored_patterns (backend (run evs)))
   \<and> (\<forall>t b. length (covering (stored_patterns (backend (run evs))) t b) \<le> 1)
   \<and> (\<forall>w. store_inv (backend w) \<longrightarrow>
         store_inv (apply_store_op (backend w) op)
         \<and> store_inv (backend (handleCellClick w trackId bar))
         \<and> store_inv (backend (apply_event w e)))"
proof -
  from world_inv_run[of evs] have inv: "store_inv (backend (run evs))"
    by (simp add: world_inv_def)
  then have n: "non_overlapping (stored_patterns (backend (run evs)))"
    and d: "distinct (map pat_id (stored_patterns (backend (run evs))))"
    by (simp_all add: store_inv_def)
  have c: "\<forall>t b. length (covering (stored_patterns (backend (run evs))) t b) \<le> 1"
    using covering_le1[OF d n] by simp
  have step: "store_inv (apply_store_op (backend w) op)
         \<and> store_inv (backend (handleCellClick w trackId bar))
         \<and> store_inv (backend (apply_event w e))" if s: "store_inv (backend w)" for w
  proof -
    have 1: "store_inv (apply_store_op (backend w) op)" by (rule store_inv_apply[OF s])
    have 2: "store_inv (backend (handleCellClick w trackId bar))"
      using handleCellClick_backend[of w trackId bar] s by (auto simp: store_inv_addPattern)
    have 3: "store_inv (backend (apply_event w e))"
    proof (cases e)
      case (Request op')
      with s show ?thesis by (simp add: store_inv_apply)
    next
      case LoadProjectDetail
      with s show ?thesis by (simp add: loadProjectDetail_def)
    next
      case (CellClick t b)
      with s handleCellClick_backend[of w t b] show ?thesis
        by (auto simp: store_inv_addPattern)
    next
      case LoadSelectedNotes
      with s show ?thesis by (simp add: loadPatternNotes_backend split: option.splits)
    next
      case (ToggleNote s' p)
      with s show ?thesis by (simp split: sum.splits)
    next
      case SaveNotes
      with s handleSaveNotes_backend[of w] show ?thesis
        by (auto simp: store_inv_replaceNotes)
    qed
    from 1 2 3 show ?thesis by simp
  qed
  from n c step show ?thesis by simp
qed

lemmas eval_simps = run_def initial_world_def empty_store_def addTrack_def loadProjectDetail_def
  handleCellClick_def createPattern_def addPattern_def bar_range_def Let_def show_simps
  demo_pattern_def

lemma run_demo_session:
  "run demo_session =
     \<lparr>backend = \<lparr>stored_tracks = [''0''], stored_patterns = [demo_pattern], stored_notes = [],
                 next_id = 2\<rparr>,
      ui = \<lparr>projectDetail = Some [demo_pattern], selectedPattern = Some demo_pattern,
            noteGrid = []\<rparr>\<rparr>"
  by (simp add: demo_session_def eval_simps)

theorem patterns_never_overlap_witness:
  "stored_patterns (backend (run (demo_session @ [CellClick ''0'' 3, CellClick ''0'' 4])))
     = [demo_pattern,
        \<lparr>name = ''Pattern 5'', length_bars = 2, start_bar = 4, pat_id = ''2'', track_id = ''0''\<rparr>]
   \<and> non_overlapping
        (stored_patterns (backend (run (demo_session @ [CellClick ''0'' 3, CellClick ''0'' 4]))))
   \<and> covering (stored_patterns (backend (run (demo_session @ [CellClick ''0'' 3, CellClick ''0'' 4]))))
        ''0'' 3 = [demo_pattern]
   \<and> store_inv (backend (run demo_session))
   \<and> store_inv (backend (handleCellClick (run demo_session) ''0'' 3))"
proof -
  let ?evs = "demo_session @ [CellClick ''0'' 3, CellClick ''0'' 4]"
  have r: "stored_patterns (backend (run ?evs))
     = [demo_pattern,
        \<lparr>name = ''Pattern 5'', length_bars = 2, start_bar = 4, pat_id = ''2'', track_id = ''0''\<rparr>]"
    by (simp add: demo_session_def eval_simps)
  have c: "covering (stored_patterns (backend (run ?evs))) ''0'' 3 = [demo_pattern]"
    by (simp add: r covering_def bar_range_def demo_pattern_def)
  have s: "store_inv (backend (run demo_session))"
    using world_inv_run[of demo_session] by (simp add: world_inv_def)
  from patterns_never_overlap[of ?evs "AddTrack" "''0''" 3 "CellClick ''0'' 3"] s
  have "non_overlapping (stored_patterns (backend (run ?evs)))"
    and "store_inv (backend (handleCellClick (run demo_session) ''0'' 3))"
    by blast+
  with r c s show ?thesis by simp
qed

section \<open>Clicking a cell of the timeline\<close>

text \<open>
  C1. The track holds "Pattern 3" on bars [2, 4) and nothing is selected. The cell of bar 3
  shows that pattern (\<open>getPatternAtCell\<close> finds it), but a click on the cell does not
  select it: \<open>handleCellClick\<close> looks for a pattern that starts at the clicked bar,
  finds none, and asks the service for a new pattern "Pattern 4" at bar 3. The store answers
  with OverlapError, and the editor is left as it was, with no pattern selected.
\<close>

theorem handleCellClick_inside_pattern:
  "getPatternAtCell (ui (run reopened_session)) ''0'' 3 = Some demo_pattern
   \<and> selectedPattern (ui (run reopened_session)) = None
   \<and> selectedPattern (ui (handleCellClick (run reopened_session) ''0'' 3)) = None
   \<and> createPattern (backend (run reopened_session)) ''0''
        \<lparr>name = ''Pattern 4'', length_bars = 2, start_bar = 3\<rparr>
       = (Inl (OverlapError ''1''), backend (run reopened_session))
   \<and> handleCellClick (run reopened_session) ''0'' 3 = run reopened_session"
  by (simp add: reopened_session_def eval_simps getPatternAtCell_def)







section \<open>Saving the grid and loading it again\<close>

lemma same_fields:
  fixes xs :: "'a note_create_scheme list" and ys :: "'b note_create_scheme list"
  assumes "map step_index xs = map step_index ys" "map pitch xs = map pitch ys"
    "map velocity xs = map velocity ys"
  shows "map triple xs = map triple ys"
    and "map (\<lambda>n. note_key (step_index n) (pitch n)) xs
         = map (\<lambda>n. note_key (step_index n) (pitch n)) ys"
proof -
  from assms(1) have len: "length xs = length ys" by (rule map_eq_imp_length_eq)
  have f: "step_index (xs ! k) = step_index (ys ! k) \<and> pitch (xs ! k) = pitch (ys ! k)
           \<and> velocity (xs ! k) = velocity (ys ! k)" if "k < length xs" for k
    using that len assms by (metis nth_map)
  show "map triple xs = map triple ys"
    using len f by (simp add: list_eq_iff_nth_eq triple_def)
  show "map (\<lambda>n. note_key (step_index n) (pitch n)) xs
         = map (\<lambda>n. note_key (step_index n) (pitch n)) ys"
    using len f by (simp add: list_eq_iff_nth_eq)
qed

lemma grid_keyed_keys:
  "grid_keyed g \<Longrightarrow> map key_of (map_values g) = map fst g"
  by (induction g) (auto simp: grid_keyed_def map_values_def key_of_def)

lemma grid_valid_values: "grid_valid g = (\<forall>n \<in> set (map_values g). valid_entry n)"
  by (auto simp: grid_valid_def map_values_def)

text \<open>
  C7. Round trip. The selected pattern exists in the store, and the working grid files every
  note once, under its own key, with step and velocity in the ranges the store accepts (every
  session keeps its grid so: \<open>world_inv_run\<close>). Then \<open>handleSaveNotes\<close> commits:
  afterwards the store's notes of the pattern have exactly the (step, pitch, velocity)
  triples of the grid, the reloaded grid has exactly these triples under the same keys in the
  same order, and so has the grid of any later \<open>loadPatternNotes\<close> of the pattern. The
  load is pinned by the store alone: whatever an editor's state is, \<open>loadPatternNotes\<close>
  of the pattern over the committed store replaces its grid by one with exactly the triples
  and the keys that were committed.
\<close>

theorem save_then_load_roundtrip:
  assumes sel: "selectedPattern (ui w) = Some sp"
    and ex: "pat_id sp \<in> set (map pat_id (stored_patterns (backend w)))"
    and keyed: "grid_keyed (noteGrid (ui w))"
    and valid: "grid_valid (noteGrid (ui w))"
  shows "\<exists>saved. getNotes (backend (handleSaveNotes w)) (pat_id sp) = Inr saved
           \<and> triple ` set saved = grid_triples (noteGrid (ui w))
           \<and> grid_triples (noteGrid (ui (handleSaveNotes w))) = grid_triples (noteGrid (ui w))
           \<and> map fst (noteGrid (ui (handleSaveNotes w))) = map fst (noteGrid (ui w))
           \<and> grid_triples (noteGrid (ui (loadPatternNotes (handleSaveNotes w) (pat_id sp))))
               = grid_triples (noteGrid (ui w))
           \<and> (\<forall>c. grid_triples (noteGrid (ui (loadPatternNotes
                        \<lparr>backend = backend (handleSaveNotes w), ui = c\<rparr> (pat_id sp))))
                      = grid_triples (noteGrid (ui w))
                    \<and> map fst (noteGrid (ui (loadPatternNotes
                        \<lparr>backend = backend (handleSaveNotes w), ui = c\<rparr> (pat_id sp))))
                      = map fst (noteGrid (ui w))
                    \<and> noteGrid (ui (loadPatternNotes
                        \<lparr>backend = backend (handleSaveNotes w), ui = c\<rparr> (pat_id sp)))
                      = noteMap saved)"
proof -
  let ?g = "noteGrid (ui w)"
  let ?i = "pat_id sp"
  let ?ns = "map (\<lambda>n. \<lparr>pattern_id = ?i, step_index = step_index n,
                          pitch = pitch n, velocity = velocity n\<rparr>) (map_values ?g)"
  have pay: "map step_index ?ns = map step_index (map_values ?g)"
    "map pitch ?ns = map pitch (map_values ?g)"
    "map velocity ?ns = map velocity (map_values ?g)"
    by (simp_all add: comp_def)
  have "\<forall>n \<in> set ?ns. valid_entry n"
    by (rule valid_entry_transfer[OF pay(1) pay(3)]) (use valid in \<open>simp add: grid_valid_values\<close>)
  with ex replaceNotes_cases[of "backend w" ?i ?ns] obtain created where
    rep: "replaceNotes (backend w) ?i ?ns =
            (Inr created,
             (backend w)\<lparr>stored_notes :=
                filter (\<lambda>n. pattern_id n \<noteq> ?i) (stored_notes (backend w)) @ created,
                next_id := next_id (backend w) + length ?ns\<rparr>)"
    and own: "map pattern_id created = map (\<lambda>_. ?i) ?ns"
    and fs: "map step_index created = map step_index ?ns"
      "map pitch created = map pitch ?ns" "map velocity created = map velocity ?ns"
    by blast
  let ?st' = "(backend w)\<lparr>stored_notes :=
                filter (\<lambda>n. pattern_id n \<noteq> ?i) (stored_notes (backend w)) @ created,
                next_id := next_id (backend w) + length ?ns\<rparr>"
  have owned: "pattern_id n = ?i" if "n \<in> set created" for n
  proof -
    from that have "pattern_id n \<in> set (map pattern_id created)" by simp
    then show ?thesis unfolding own by auto
  qed
  then have "filter (\<lambda>n. pattern_id n = ?i) created = created"
    by (simp add: filter_id_conv)
  then have get: "getNotes ?st' ?i = Inr created"
    using ex by (simp add: getNotes_def del: set_map)
  have same: "map triple created = map triple (map_values ?g)"
    "map key_of created = map key_of (map_values ?g)"
    using same_fields[of created "map_values ?g"] fs pay
    by (simp_all add: key_of_def[abs_def])
  from same(2) keyed have keys: "map key_of created = map fst ?g"
    by (simp add: grid_keyed_keys)
  with keyed have "distinct (map key_of created)" by (simp add: grid_keyed_def)
  then have nm: "noteMap created = map (\<lambda>n. (key_of n, n)) created"
    by (rule noteMap_distinct_keys)
  have tr: "triple ` set created = grid_triples ?g"
  proof -
    have "triple ` set created = set (map triple created)" by simp
    also have "\<dots> = set (map triple (map_values ?g))" by (simp only: same(1))
    finally show ?thesis by (simp add: grid_triples_def)
  qed
  have load: "noteGrid (ui (loadPatternNotes (w'\<lparr>backend := ?st'\<rparr>) ?i)) = noteMap created"
    for w' :: world
    using get by (simp add: loadPatternNotes_def getPatternNotes_def)
  have saved: "handleSaveNotes w = loadPatternNotes (w\<lparr>backend := ?st'\<rparr>) ?i"
    using rep by (simp add: handleSaveNotes_selected[OF sel])
  have b: "backend (handleSaveNotes w) = ?st'"
    by (simp add: saved loadPatternNotes_backend)
  have g': "noteGrid (ui (handleSaveNotes w)) = noteMap created"
    unfolding saved by (rule load)
  have again: "noteGrid (ui (loadPatternNotes (handleSaveNotes w) ?i)) = noteMap created"
    using get b by (simp add: loadPatternNotes_def getPatternNotes_def)
  have gt: "grid_triples (noteMap created) = grid_triples ?g"
    using tr by (simp add: nm grid_triples_def map_values_def comp_def)
  have gk: "map fst (noteMap created) = map fst ?g"
    using keys by (simp add: nm comp_def)
  have anywhere: "noteGrid (ui (loadPatternNotes
                        \<lparr>backend = backend (handleSaveNotes w), ui = c\<rparr> ?i)) = noteMap created"
    for c
    using get b by (simp add: loadPatternNotes_def getPatternNotes_def)
  have f1: "getNotes (backend (handleSaveNotes w)) ?i = Inr created"
    unfolding b by (rule get)
  have f3: "grid_triples (noteGrid (ui (handleSaveNotes w))) = grid_triples ?g"
    by (simp only: g' gt)
  have f4: "map fst (noteGrid (ui (handleSaveNotes w))) = map fst ?g"
    by (simp only: g' gk)
  have f5: "grid_triples (noteGrid (ui (loadPatternNotes (handleSaveNotes w) ?i)))
              = grid_triples ?g"
    by (simp only: again gt)
  have f6: "grid_triples (noteGrid (ui (loadPatternNotes
                        \<lparr>backend = backend (handleSaveNotes w), ui = c\<rparr> ?i)))
              = grid_triples ?g" for c
    by (simp only: anywhere gt)
  have f7: "map fst (noteGrid (ui (loadPatternNotes
                        \<lparr>backend = backend (handleSaveNotes w), ui = c\<rparr> ?i)))
              = map fst ?g" for c
    by (simp only: anywhere gk)
  show ?thesis
    by (intro exI[of _ created] conjI allI) (rule f1 tr f3 f4 f5 f6 f7 anywhere)+
qed

lemma run_snoc: "run (evs @ [e]) = apply_event (run evs) e"
  by (simp add: run_def)

lemma run_editing_session:
  "run editing_session =
     (run demo_session)\<lparr>ui := (ui (run demo_session))
        \<lparr>noteGrid := [(''0-60'', temp_note 0 60), (''4-62'', temp_note 4 62)]\<rparr>\<rparr>"
proof -
  have 1: "run (demo_session @ [LoadSelectedNotes]) = run demo_session"
    unfolding run_snoc unfolding run_demo_session
    by (simp add: loadPatternNotes_def getPatternNotes_def getNotes_def noteMap_def
        demo_pattern_def)
  have 2: "run (demo_session @ [LoadSelectedNotes, ToggleNote 0 60]) =
     (run demo_session)\<lparr>ui := (ui (run demo_session))\<lparr>noteGrid := [(''0-60'', temp_note 0 60)]\<rparr>\<rparr>"
    using run_snoc[of "demo_session @ [LoadSelectedNotes]" "ToggleNote 0 60"]
    unfolding 1 unfolding run_demo_session
    by (simp add: toggleNote_def Let_def map_has_def map_set_def NUM_STEPS_def PITCH_NOTES_def
        show_simps temp_note_def demo_pattern_def)
  have "run (demo_session @ [LoadSelectedNotes, ToggleNote 0 60, ToggleNote 4 62]) =
     (run demo_session)\<lparr>ui := (ui (run demo_session))
        \<lparr>noteGrid := [(''0-60'', temp_note 0 60), (''4-62'', temp_note 4 62)]\<rparr>\<rparr>"
    using run_snoc[of "demo_session @ [LoadSelectedNotes, ToggleNote 0 60]" "ToggleNote 4 62"]
    unfolding 2 unfolding run_demo_session
    by (simp add: toggleNote_def Let_def map_has_def map_set_def NUM_STEPS_def PITCH_NOTES_def
        show_simps temp_note_def demo_pattern_def)
  then show ?thesis by (simp add: editing_session_def)
qed

theorem save_then_load_roundtrip_witness:
  "selectedPattern (ui (run editing_session)) = Some demo_pattern
   \<and> pat_id demo_pattern \<in> set (map pat_id (stored_patterns (backend (run editing_session))))
   \<and> grid_keyed (noteGrid (ui (run editing_session)))
   \<and> grid_valid (noteGrid (ui (run editing_session)))
   \<and> grid_triples (noteGrid (ui (run editing_session))) = {(0, 60, 100), (4, 62, 100)}
   \<and> (\<exists>saved. getNotes (backend (handleSaveNotes (run editing_session))) ''1'' = Inr saved
          \<and> triple ` set saved = {(0, 60, 100), (4, 62, 100)})
   \<and> grid_triples (noteGrid (ui (handleSaveNotes (run editing_session))))
       = {(0, 60, 100), (4, 62, 100)}
   \<and> grid_triples (noteGrid (demo_client\<lparr>noteGrid := [(''4-62'', demo_note)]\<rparr>))
       = {(4, 62, 90)}
   \<and> grid_triples (noteGrid (ui (loadPatternNotes
          \<lparr>backend = backend (handleSaveNotes (run editing_session)),
           ui = demo_client\<lparr>noteGrid := [(''4-62'', demo_note)]\<rparr>\<rparr> ''1'')))
       = {(0, 60, 100), (4, 62, 100)}
   \<and> map fst (noteGrid (ui (loadPatternNotes
          \<lparr>backend = backend (handleSaveNotes (run editing_session)),
           ui = demo_client\<lparr>noteGrid := [(''4-62'', demo_note)]\<rparr>\<rparr> ''1'')))
       = [''0-60'', ''4-62'']"
proof -
  let ?w = "run editing_session"
  let ?c = "demo_client\<lparr>noteGrid := [(''4-62'', demo_note)]\<rparr>"
  have sel: "selectedPattern (ui ?w) = Some demo_pattern"
    by (simp add: run_editing_session run_demo_session)
  have ex: "pat_id demo_pattern \<in> set (map pat_id (stored_patterns (backend ?w)))"
    by (simp add: run_editing_session run_demo_session)
  from world_inv_run[of editing_session]
  have keyed: "grid_keyed (noteGrid (ui ?w))" and valid: "grid_valid (noteGrid (ui ?w))"
    by (simp_all add: world_inv_def)
  have tr: "grid_triples (noteGrid (ui ?w)) = {(0, 60, 100), (4, 62, 100)}"
    by (simp add: run_editing_session grid_triples_def map_values_def triple_def temp_note_def)
  have ks: "map fst (noteGrid (ui ?w)) = [''0-60'', ''4-62'']"
    by (simp add: run_editing_session)
  have other: "grid_triples (noteGrid ?c) = {(4, 62, 90)}"
    by (simp add: grid_triples_def map_values_def triple_def demo_note_def)
  have i: "pat_id demo_pattern = ''1''" by (simp add: demo_pattern_def)
  have rest: "(\<exists>saved. getNotes (backend (handleSaveNotes ?w)) ''1'' = Inr saved
                  \<and> triple ` set saved = {(0, 60, 100), (4, 62, 100)})
      \<and> grid_triples (noteGrid (ui (handleSaveNotes ?w))) = {(0, 60, 100), (4, 62, 100)}
      \<and> grid_triples (noteGrid (ui (loadPatternNotes
             \<lparr>backend = backend (handleSaveNotes ?w), ui = ?c\<rparr> ''1'')))
          = {(0, 60, 100), (4, 62, 100)}
      \<and> map fst (noteGrid (ui (loadPatternNotes
             \<lparr>backend = backend (handleSaveNotes ?w), ui = ?c\<rparr> ''1'')))
          = [''0-60'', ''4-62'']"
    using save_then_load_roundtrip[OF sel ex keyed valid]
  proof (elim exE conjE)
    fix saved
    assume a1: "getNotes (backend (handleSaveNotes ?w)) (pat_id demo_pattern) = Inr saved"
      and a2: "triple ` set saved = grid_triples (noteGrid (ui ?w))"
      and a3: "grid_triples (noteGrid (ui (handleSaveNotes ?w))) = grid_triples (noteGrid (ui ?w))"
      and a6: "\<forall>c. grid_triples (noteGrid (ui (loadPatternNotes
                        \<lparr>backend = backend (handleSaveNotes ?w), ui = c\<rparr>
                        (pat_id demo_pattern))))
                      = grid_triples (noteGrid (ui ?w))
                    \<and> map fst (noteGrid (ui (loadPatternNotes
                        \<lparr>backend = backend (handleSaveNotes ?w), ui = c\<rparr>
                        (pat_id demo_pattern))))
                      = map fst (noteGrid (ui ?w))
                    \<and> noteGrid (ui (loadPatternNotes
                        \<lparr>backend = backend (handleSaveNotes ?w), ui = c\<rparr>
                        (pat_id demo_pattern)))
                      = noteMap saved"
    note here = spec[OF a6, of ?c]
    from a1 a2 have "\<exists>saved. getNotes (backend (handleSaveNotes ?w)) ''1'' = Inr saved
                  \<and> triple ` set saved = {(0, 60, 100), (4, 62, 100)}"
      unfolding i tr by (intro exI[of _ saved] conjI)
    moreover from a3 have "grid_triples (noteGrid (ui (handleSaveNotes ?w)))
                             = {(0, 60, 100), (4, 62, 100)}"
      unfolding tr .
    moreover from here[THEN conjunct1] have "grid_triples (noteGrid (ui (loadPatternNotes
             \<lparr>backend = backend (handleSaveNotes ?w), ui = ?c\<rparr> ''1'')))
          = {(0, 60, 100), (4, 62, 100)}"
      unfolding i tr .
    moreover from here[THEN conjunct2, THEN conjunct1] have "map fst (noteGrid (ui (loadPatternNotes
             \<lparr>backend = backend (handleSaveNotes ?w), ui = ?c\<rparr> ''1'')))
          = [''0-60'', ''4-62'']"
      unfolding i ks .
    ultimately show ?thesis by (intro conjI)
  qed
  note r1 = rest[THEN conjunct1]
    and r2 = rest[THEN conjunct2, THEN conjunct1]
    and r3 = rest[THEN conjunct2, THEN conjunct2, THEN conjunct1]
    and r4 = rest[THEN conjunct2, THEN conjunct2, THEN conjunct2]
  show ?thesis
    by (intro conjI) (rule sel ex keyed valid tr other r1 r2 r3 r4)+
qed

text \<open>
  C8. When some entry of the list has its step index outside \<open>[0, STEPS_PER_PATTERN)\<close>
  or its velocity outside \<open>[0, 127]\<close>, \<open>replaceNotes\<close> (and with it the client's
  \<open>createNotesBulk\<close> and \<open>replacePatternNotes\<close>) answers ValidationError and leaves
  the store as it was: the notes of every pattern are the ones it had.
\<close>

theorem replaceNotes_all_or_nothing:
  assumes "\<exists>n \<in> set noteList. step_index n < 0 \<or> STEPS_PER_PATTERN \<le> step_index n
                                \<or> velocity n < 0 \<or> 127 < velocity n"
  shows "replaceNotes st patternId noteList = (Inl ValidationError, st)
         \<and> createNotesBulk st patternId noteList = (Inl ValidationError, st)
         \<and> replacePatternNotes st patternId noteList = (Inl ValidationError, st)
         \<and> (\<forall>i. getNotes (snd (replaceNotes st patternId noteList)) i = getNotes st i)"
proof -
  from assms obtain n where "n \<in> set noteList"
    "step_index n < 0 \<or> STEPS_PER_PATTERN \<le> step_index n \<or> velocity n < 0 \<or> 127 < velocity n"
    by blast
  then have "n \<in> set noteList \<and> \<not> valid_entry n"
    by (auto simp: valid_entry_def)
  then have "\<exists>n \<in> set noteList. \<not> valid_entry n" by blast
  then have "replaceNotes st patternId noteList = (Inl ValidationError, st)"
    by (simp add: replaceNotes_def)
  then show ?thesis by (simp add: createNotesBulk_def replacePatternNotes_def)
qed

theorem replaceNotes_all_or_nothing_witness:
  "(\<exists>n \<in> set [\<lparr>pattern_id = ''1'', step_index = 3, pitch = 60, velocity = 100\<rparr>,
                \<lparr>pattern_id = ''1'', step_index = 16, pitch = 62, velocity = 100\<rparr>].
       step_index n < 0 \<or> STEPS_PER_PATTERN \<le> step_index n \<or> velocity n < 0 \<or> 127 < velocity n)
   \<and> replaceNotes demo_store ''1''
         [\<lparr>pattern_id = ''1'', step_index = 3, pitch = 60, velocity = 100\<rparr>,
          \<lparr>pattern_id = ''1'', step_index = 16, pitch = 62, velocity = 100\<rparr>]
       = (Inl ValidationError, demo_store)
   \<and> getNotes (snd (replaceNotes demo_store ''1''
         [\<lparr>pattern_id = ''1'', step_index = 3, pitch = 60, velocity = 100\<rparr>,
          \<lparr>pattern_id = ''1'', step_index = 16, pitch = 62, velocity = 100\<rparr>])) ''1''
       = Inr [demo_note]"
proof -
  let ?ns = "[\<lparr>pattern_id = ''1'', step_index = 3, pitch = 60, velocity = 100\<rparr>,
              \<lparr>pattern_id = ''1'', step_index = 16, pitch = 62, velocity = 100\<rparr>]"
  have h: "\<exists>n \<in> set ?ns. step_index n < 0 \<or> STEPS_PER_PATTERN \<le> step_index n
                       \<or> velocity n < 0 \<or> 127 < velocity n"
    by (simp add: STEPS_PER_PATTERN_def)
  have g: "getNotes demo_store ''1'' = Inr [demo_note]"
    by (simp add: getNotes_def demo_store_def demo_pattern_def demo_note_def)
  from replaceNotes_all_or_nothing[OF h, of demo_store "''1''"] h g show ?thesis by simp
qed

end
